theory Spec2Isabelle
  imports Main "HOL-Library.Sublist" "HOL-Library.AList"
begin

section \<open>The dataset loader: metadata repair and dataset assembly\<close>

text \<open>
  A shallow embedding of \<^verbatim>\<open>src/dataset_setup/data_loader.py\<close>. Python's \<^verbatim>\<open>str\<close> is
  modelled as \<^typ>\<open>string\<close> (a text is the list of its bytes in UTF-8; every
  pattern the loader searches for is ASCII, so replacing on bytes and on code points
  agree). Exceptions are values of a sum type. In the terms below \<open>CHR 0x27\<close> is the
  single quote, \<open>CHR 0x22\<close> the double quote and \<open>CHR 0x5C\<close> the backslash.
\<close>

subsection \<open>Python's \<^verbatim>\<open>str.replace\<close> and the two candidate texts\<close>

text \<open>
  \<^verbatim>\<open>s.replace(old, new)\<close> scans \<open>s\<close> from the left and replaces every
  non-overlapping occurrence of \<open>old\<close>; with an empty \<open>old\<close> it inserts \<open>new\<close>
  before every character and at the end.
\<close>

fun str_replace :: "string \<Rightarrow> string \<Rightarrow> string \<Rightarrow> string" where
  "str_replace old new [] = (if old = [] then new else [])"
| "str_replace old new (c # cs) =
     (if old = [] then new @ c # str_replace old new cs
      else if prefix old (c # cs) then new @ str_replace old new (drop (length old) (c # cs))
      else c # str_replace old new cs)"

text \<open>
  The argument of the first \<^verbatim>\<open>json.loads\<close> in \<^verbatim>\<open>fix_json_structure\<close>
  (lines 95-97) and of the second one (lines 99-108), as chains of \<^verbatim>\<open>replace\<close>
  calls in the order the source applies them.
\<close>

definition tier1_text :: "string \<Rightarrow> string" where
  "tier1_text metadata =
     str_replace ''TMP1'' [CHR 0x27]
       (str_replace [CHR 0x27] [CHR 0x22]
         (str_replace [CHR 0x22] ''TMP1'' metadata))"

definition tier2_text :: "string \<Rightarrow> string" where
  "tier2_text metadata =
     str_replace ''TMP3'' [CHR 0x27, CHR ''('']
       (str_replace ''TMP1'' [CHR 0x27, CHR ''s'']
         (str_replace ''TMP2'' [CHR 0x27, CHR ''t'']
           (str_replace [CHR 0x27] [CHR 0x22]
             (str_replace [CHR 0x22] [CHR 0x27]
               (str_replace [CHR 0x27, CHR ''(''] ''TMP3''
                 (str_replace [CHR 0x27, CHR ''t''] ''TMP2''
                   (str_replace [CHR 0x27, CHR ''s''] ''TMP1'' metadata)))))))"

text \<open>The two character maps the quote steps are compared with.\<close>

definition swap_quotes :: "char \<Rightarrow> char" where
  "swap_quotes c = (if c = CHR 0x22 then CHR 0x27 else if c = CHR 0x27 then CHR 0x22 else c)"

definition to_dquote :: "char \<Rightarrow> char" where
  "to_dquote c = (if c = CHR 0x27 then CHR 0x22 else c)"

subsection \<open>JSON values and errors\<close>

text \<open>
  What \<^verbatim>\<open>json.loads\<close> returns: \<^verbatim>\<open>None\<close>, a \<^verbatim>\<open>bool\<close>, an \<^verbatim>\<open>int\<close>, a
  \<^verbatim>\<open>float\<close>, a \<^verbatim>\<open>str\<close>, a \<^verbatim>\<open>list\<close> or a \<^verbatim>\<open>dict\<close>. A dict is an association
  list in insertion order with distinct keys. A float read from a literal is kept as
  the decimal number the literal denotes, \<open>Decimal m e\<close> standing for \<open>m * 10 ^ e\<close>;
  Python rounds that number to the nearest binary64 value, which is not modelled.
\<close>

datatype pyfloat = Decimal int int | NaN | Infinity | NegInfinity

datatype json =
    JNull
  | JBool bool
  | JInt int
  | JFloat pyfloat
  | JString string
  | JArray "json list"
  | JObject "(string \<times> json) list"

text \<open>The exceptions the loader can end with.\<close>

datatype error =
    JSONDecodeError
  | KeyError string
  | TypeError
  | ValueError string

subsection \<open>The standard library's \<^verbatim>\<open>json.loads\<close>\<close>

text \<open>
  The decoder is not part of the repository; it is written out here after the
  scanner of CPython's \<^verbatim>\<open>json\<close> package (\<^verbatim>\<open>scanstring\<close>, \<^verbatim>\<open>scan_once\<close>,
  \<^verbatim>\<open>JSONArray\<close>, \<^verbatim>\<open>JSONObject\<close>, \<^verbatim>\<open>JSONDecoder.decode\<close>), working on the
  remaining text instead of an index into it. Every way of rejecting a text is the
  one exception \<^verbatim>\<open>JSONDecodeError\<close>, here the result \<open>None\<close>; the message and
  position it carries are left out. The decoder's resource limits (recursion depth,
  length of an integer literal) are not modelled.
\<close>

definition is_ws :: "char \<Rightarrow> bool" where
  "is_ws c \<longleftrightarrow> c \<in> set [CHR '' '', CHR 0x09, CHR 0x0A, CHR 0x0D]"

definition skip_ws :: "string \<Rightarrow> string" where
  "skip_ws s = dropWhile is_ws s"

definition is_digit :: "char \<Rightarrow> bool" where
  "is_digit c \<longleftrightarrow> c \<in> set ''0123456789''"

definition digit_val :: "char \<Rightarrow> nat" where
  "digit_val c = of_char c - 48"

definition digits_val :: "string \<Rightarrow> nat" where
  "digits_val ds = foldl (\<lambda>n c. 10 * n + digit_val c) 0 ds"

definition hex_val :: "char \<Rightarrow> nat option" where
  "hex_val c =
     (if is_digit c then Some (of_char c - 48)
      else if c \<in> set ''abcdef'' then Some (of_char c - 87)
      else if c \<in> set ''ABCDEF'' then Some (of_char c - 55)
      else None)"

definition decode_uXXXX :: "string \<Rightarrow> nat option" where
  "decode_uXXXX s =
     (case s of
        a # b # c # d # _ \<Rightarrow>
          (case (hex_val a, hex_val b, hex_val c, hex_val d) of
             (Some x, Some y, Some z, Some w) \<Rightarrow> Some (((x * 16 + y) * 16 + z) * 16 + w)
           | _ \<Rightarrow> None)
      | _ \<Rightarrow> None)"

text \<open>\<^verbatim>\<open>chr(n)\<close>, as the bytes of the code point in UTF-8.\<close>

definition chr_utf8 :: "nat \<Rightarrow> string" where
  "chr_utf8 n =
     (if n < 0x80 then [char_of n]
      else if n < 0x800 then [char_of (0xC0 + n div 64), char_of (0x80 + n mod 64)]
      else if n < 0x10000 then
        [char_of (0xE0 + n div 4096), char_of (0x80 + n div 64 mod 64), char_of (0x80 + n mod 64)]
      else
        [char_of (0xF0 + n div 262144), char_of (0x80 + n div 4096 mod 64),
         char_of (0x80 + n div 64 mod 64), char_of (0x80 + n mod 64)])"

definition BACKSLASH :: "char \<Rightarrow> char option" where
  "BACKSLASH esc =
     (if esc = CHR 0x22 then Some (CHR 0x22)
      else if esc = CHR 0x5C then Some (CHR 0x5C)
      else if esc = CHR ''/'' then Some (CHR ''/'')
      else if esc = CHR ''b'' then Some (CHR 0x08)
      else if esc = CHR ''f'' then Some (CHR 0x0C)
      else if esc = CHR ''n'' then Some (CHR 0x0A)
      else if esc = CHR ''r'' then Some (CHR 0x0D)
      else if esc = CHR ''t'' then Some (CHR 0x09)
      else None)"

text \<open>
  The text after \<^verbatim>\<open>\u\<close>: four hexadecimal digits, and a second escape when the
  first is a high surrogate and the second a low one.
\<close>

definition unicode_escape :: "string \<Rightarrow> (string \<times> string) option" where
  "unicode_escape s =
     (case decode_uXXXX s of
        None \<Rightarrow> None
      | Some uni \<Rightarrow>
          (let rest = drop 4 s in
           if 0xD800 \<le> uni \<and> uni \<le> 0xDBFF \<and> take 2 rest = [CHR 0x5C, CHR ''u''] then
             (case decode_uXXXX (drop 2 rest) of
                None \<Rightarrow> None
              | Some uni2 \<Rightarrow>
                  if 0xDC00 \<le> uni2 \<and> uni2 \<le> 0xDFFF
                  then Some (chr_utf8 (0x10000 + ((uni - 0xD800) * 1024 + (uni2 - 0xDC00))), drop 6 rest)
                  else Some (chr_utf8 uni, rest))
           else Some (chr_utf8 uni, rest)))"

text \<open>
  \<^verbatim>\<open>scanstring\<close> starts after the opening quote and returns the string's content
  and the text after the closing quote. The test \<open>length rest \<le> length cs'\<close> is there
  for the termination proof only: \<open>unicode_escape_shorter\<close> shows it always holds.
\<close>

function scanstring :: "string \<Rightarrow> (string \<times> string) option" where
  "scanstring [] = None"
| "scanstring (c # cs) =
     (if c = CHR 0x22 then Some ([], cs)
      else if c = CHR 0x5C then
        (case cs of
           [] \<Rightarrow> None
         | esc # cs' \<Rightarrow>
             if esc = CHR ''u'' then
               (case unicode_escape cs' of
                  None \<Rightarrow> None
                | Some (chars, rest) \<Rightarrow>
                    if length rest \<le> length cs' then
                      (case scanstring rest of
                         None \<Rightarrow> None
                       | Some (str, rest') \<Rightarrow> Some (chars @ str, rest'))
                    else None)
             else
               (case BACKSLASH esc of
                  None \<Rightarrow> None
                | Some ch \<Rightarrow>
                    (case scanstring cs' of
                       None \<Rightarrow> None
                     | Some (str, rest') \<Rightarrow> Some (ch # str, rest'))))
      else if (of_char c :: nat) < 0x20 then None
      else
        (case scanstring cs of
           None \<Rightarrow> None
         | Some (str, rest') \<Rightarrow> Some (c # str, rest')))"
  by pat_completeness auto
termination
  by (relation "measure length") auto

text \<open>
  The number pattern
  \<^verbatim>\<open>(-?(?:0|[1-9]\d*))(\.\d+)?([eE][-+]?\d+)?\<close>: an integer part, an optional
  fraction and an optional exponent. A literal with neither fraction nor exponent
  is an \<^verbatim>\<open>int\<close>, any other a \<^verbatim>\<open>float\<close>.
\<close>

definition number_value :: "bool \<Rightarrow> string \<Rightarrow> string \<Rightarrow> (bool \<times> string) option \<Rightarrow> json" where
  "number_value neg integer frac exp =
     (let sgn = (if neg then - 1 else 1 :: int) in
      if frac = [] \<and> exp = None then JInt (sgn * int (digits_val integer))
      else JFloat (Decimal (sgn * int (digits_val (integer @ frac)))
             ((case exp of
                 None \<Rightarrow> 0
               | Some (eneg, ds) \<Rightarrow> (if eneg then - int (digits_val ds) else int (digits_val ds)))
              - int (length frac))))"

definition match_frac :: "string \<Rightarrow> string \<times> string" where
  "match_frac s =
     (case s of
        c # r \<Rightarrow>
          if c = CHR ''.'' \<and> takeWhile is_digit r \<noteq> []
          then (takeWhile is_digit r, dropWhile is_digit r) else ([], s)
      | [] \<Rightarrow> ([], s))"

definition match_exp :: "string \<Rightarrow> (bool \<times> string) option \<times> string" where
  "match_exp s =
     (case s of
        c # r \<Rightarrow>
          if c = CHR ''e'' \<or> c = CHR ''E'' then
            (let (eneg, r') =
               (case r of
                  d # r2 \<Rightarrow>
                    if d = CHR ''-'' then (True, r2)
                    else if d = CHR ''+'' then (False, r2) else (False, r)
                | [] \<Rightarrow> (False, r))
             in if takeWhile is_digit r' \<noteq> []
                then (Some (eneg, takeWhile is_digit r'), dropWhile is_digit r')
                else (None, s))
          else (None, s)
      | [] \<Rightarrow> (None, s))"

definition match_number :: "string \<Rightarrow> (json \<times> string) option" where
  "match_number s =
     (let (neg, s1) =
        (case s of c # r \<Rightarrow> if c = CHR ''-'' then (True, r) else (False, s) | [] \<Rightarrow> (False, s))
      in case s1 of
        [] \<Rightarrow> None
      | d # r \<Rightarrow>
          if \<not> is_digit d then None
          else
            (let (integer, s2) =
               (if d = CHR ''0'' then ([d], r) else (d # takeWhile is_digit r, dropWhile is_digit r));
                 (frac, s3) = match_frac s2;
                 (exp, s4) = match_exp s3
             in Some (number_value neg integer frac exp, s4)))"

text \<open>
  \<^verbatim>\<open>dict(pairs)\<close>: a key that comes again keeps its first position and takes the
  later value.
\<close>

definition dict :: "('k \<times> 'v) list \<Rightarrow> ('k \<times> 'v) list" where
  "dict pairs = foldl (\<lambda>d (k, v). AList.update k v d) [] pairs"

lemma length_skip_ws: "length (skip_ws s) \<le> length s"
  by (simp add: skip_ws_def length_dropWhile_le)

lemma skip_ws_Cons_length: "skip_ws s = c # r \<Longrightarrow> length r < length s"
  using length_skip_ws[of s] by simp

lemma unicode_escape_shorter:
  "unicode_escape s = Some (chars, rest) \<Longrightarrow> length rest \<le> length s"
  by (auto simp: unicode_escape_def Let_def split: option.splits if_splits)

lemma scanstring_shorter:
  "scanstring s = Some (str, rest) \<Longrightarrow> length rest < length s"
proof (induction s arbitrary: str rest rule: scanstring.induct)
  case 1
  then show ?case by simp
next
  case (2 c cs)
  show ?case
  proof (cases "c = CHR 0x22")
    case True
    with 2(4) show ?thesis by simp
  next
    case nq: False
    show ?thesis
    proof (cases "c = CHR 0x5C")
      case True
      with nq 2(4) obtain esc cs' where cs: "cs = esc # cs'"
        by (cases cs) auto
      show ?thesis
      proof (cases "esc = CHR ''u''")
        case u: True
        with nq True cs 2(4) obtain chars r where
          ue: "unicode_escape cs' = Some (chars, r)" and le: "length r \<le> length cs'"
          by (auto split: option.splits if_splits)
        with nq True cs u 2(4) obtain str' where "scanstring r = Some (str', rest)"
          by (auto split: option.splits)
        from 2(1)[OF nq True cs u ue refl le this] le cs show ?thesis by simp
      next
        case nu: False
        with nq True cs 2(4) obtain ch where b: "BACKSLASH esc = Some ch"
          by (auto split: option.splits)
        with nq True cs nu 2(4) obtain str' where "scanstring cs' = Some (str', rest)"
          by (auto split: option.splits)
        from 2(2)[OF nq True cs nu b this] cs show ?thesis by simp
      qed
    next
      case nb: False
      with nq 2(4) have nc: "\<not> (of_char c :: nat) < 0x20"
        by (auto split: if_splits)
      with nq nb 2(4) obtain str' where "scanstring cs = Some (str', rest)"
        by (auto split: option.splits)
      from 2(3)[OF nq nb nc this] show ?thesis by simp
    qed
  qed
qed

text \<open>
  \<^verbatim>\<open>scan_once\<close> reads one value at the start of the text; \<^verbatim>\<open>JSONArray\<close> reads the
  elements of a non-empty array, starting at the first element; \<^verbatim>\<open>JSONObject\<close>
  reads the members of a non-empty object, starting after the opening quote of the
  first key. The two tests \<open>length end < length s\<close> are there for the termination
  proof only: \<open>scan_once_shorter\<close> shows that they always hold.
\<close>

function scan_once :: "string \<Rightarrow> (json \<times> string) option"
  and JSONArray :: "string \<Rightarrow> (json list \<times> string) option"
  and JSONObject :: "string \<Rightarrow> ((string \<times> json) list \<times> string) option"
where
  "scan_once [] = None"
| "scan_once (nextchar # rest) =
     (let s = nextchar # rest in
      if nextchar = CHR 0x22 then
        (case scanstring rest of
           None \<Rightarrow> None
         | Some (str, end) \<Rightarrow> Some (JString str, end))
      else if nextchar = CHR ''{'' then
        (case skip_ws rest of
           [] \<Rightarrow> None
         | c # after \<Rightarrow>
             if c = CHR ''}'' then Some (JObject [], after)
             else if c = CHR 0x22 then
               (case JSONObject after of
                  None \<Rightarrow> None
                | Some (pairs, end) \<Rightarrow> Some (JObject (dict pairs), end))
             else None)
      else if nextchar = CHR ''['' then
        (case skip_ws rest of
           [] \<Rightarrow> None
         | c # after \<Rightarrow>
             if c = CHR '']'' then Some (JArray [], after)
             else
               (case JSONArray (c # after) of
                  None \<Rightarrow> None
                | Some (values, end) \<Rightarrow> Some (JArray values, end)))
      else if prefix ''null'' s then Some (JNull, drop 4 s)
      else if prefix ''true'' s then Some (JBool True, drop 4 s)
      else if prefix ''false'' s then Some (JBool False, drop 5 s)
      else
        (case match_number s of
           Some (res, end) \<Rightarrow> Some (res, end)
         | None \<Rightarrow>
             if prefix ''NaN'' s then Some (JFloat NaN, drop 3 s)
             else if prefix ''Infinity'' s then Some (JFloat Infinity, drop 8 s)
             else if prefix ''-Infinity'' s then Some (JFloat NegInfinity, drop 9 s)
             else None))"
| "JSONArray s =
     (case scan_once s of
        None \<Rightarrow> None
      | Some (v, end) \<Rightarrow>
          if length end < length s then
            (case skip_ws end of
               [] \<Rightarrow> None
             | c # after \<Rightarrow>
                 if c = CHR '']'' then Some ([v], after)
                 else if c = CHR '','' then
                   (case JSONArray (skip_ws after) of
                      None \<Rightarrow> None
                    | Some (values, end') \<Rightarrow> Some (v # values, end'))
                 else None)
          else None)"
| "JSONObject s =
     (case scanstring s of
        None \<Rightarrow> None
      | Some (key, end) \<Rightarrow>
          (case skip_ws end of
             [] \<Rightarrow> None
           | colon # after \<Rightarrow>
               if colon \<noteq> CHR '':'' then None
               else
                 (case scan_once (skip_ws after) of
                    None \<Rightarrow> None
                  | Some (v, end') \<Rightarrow>
                      if length end' < length s then
                        (case skip_ws end' of
                           [] \<Rightarrow> None
                         | c # after' \<Rightarrow>
                             if c = CHR ''}'' then Some ([(key, v)], after')
                             else if c = CHR '','' then
                               (case skip_ws after' of
                                  [] \<Rightarrow> None
                                | q # after'' \<Rightarrow>
                                    if q = CHR 0x22 then
                                      (case JSONObject after'' of
                                         None \<Rightarrow> None
                                       | Some (pairs, end'') \<Rightarrow> Some ((key, v) # pairs, end''))
                                    else None)
                             else None)
                      else None)))"
  by pat_completeness auto

termination
proof (relation "measure (\<lambda>x. case x of
      Inl s \<Rightarrow> 2 * length s
    | Inr (Inl s) \<Rightarrow> 2 * length s + 1
    | Inr (Inr s) \<Rightarrow> 2 * length s + 1)", goal_cases)
  case 1
  show ?case by simp
next
  case (2 c rest s q after)
  then show ?case using skip_ws_Cons_length[of rest q after] by simp
next
  case (3 c rest s q after)
  then show ?case using length_skip_ws[of rest] by simp
next
  case (4 s)
  show ?case by simp
next
  case (5 s b v e c after)
  then show ?case
    using skip_ws_Cons_length[of e c after] length_skip_ws[of after] by simp
next
  case (6 s b key e colon after)
  then show ?case
    using scanstring_shorter[of s key e] skip_ws_Cons_length[of e colon after]
      length_skip_ws[of after] by auto
next
  case (7 s b key e colon after b' v e' c after' q after'')
  then show ?case
    using skip_ws_Cons_length[of e' c after'] skip_ws_Cons_length[of after' q after'']
    by simp
qed

declare scan_once.simps [simp del] JSONArray.simps [simp del] JSONObject.simps [simp del]

text \<open>
  \<^verbatim>\<open>json.loads(s)\<close> for a \<^verbatim>\<open>str\<close>: a text that starts with a byte order mark is
  rejected; otherwise one value is read after leading whitespace, and only
  whitespace may follow it.
\<close>

definition json_loads :: "string \<Rightarrow> error + json" where
  "json_loads s =
     (if prefix [CHR 0xEF, CHR 0xBB, CHR 0xBF] s then Inl JSONDecodeError
      else
        (case scan_once (skip_ws s) of
           None \<Rightarrow> Inl JSONDecodeError
         | Some (obj, end) \<Rightarrow>
             if skip_ws end = [] then Inr obj else Inl JSONDecodeError))"

subsection \<open>\<^verbatim>\<open>fix_json_structure\<close> and \<^verbatim>\<open>preprocess_annotator_metadata\<close>\<close>

text \<open>
  The \<^verbatim>\<open>try\<close> block parses the Tier 1 text; only a \<^verbatim>\<open>JSONDecodeError\<close> reaches the
  \<^verbatim>\<open>except\<close> clause, which parses the Tier 2 text and lets its exception escape.
\<close>

definition fix_json_structure :: "string \<Rightarrow> error + json" where
  "fix_json_structure metadata =
     (case json_loads (tier1_text metadata) of
        Inr v \<Rightarrow> Inr v
      | Inl JSONDecodeError \<Rightarrow> json_loads (tier2_text metadata)
      | Inl e \<Rightarrow> Inl e)"

text \<open>
  The three phases of the Tier 2 chain, by name: the first three \<^verbatim>\<open>replace\<close> calls,
  the two quote replacements in the middle, and the last three calls.
\<close>

definition tier2_protect :: "string \<Rightarrow> string" where
  "tier2_protect metadata =
     str_replace [CHR 0x27, CHR ''(''] ''TMP3''
       (str_replace [CHR 0x27, CHR ''t''] ''TMP2''
         (str_replace [CHR 0x27, CHR ''s''] ''TMP1'' metadata))"

definition tier2_quotes :: "string \<Rightarrow> string" where
  "tier2_quotes s = str_replace [CHR 0x27] [CHR 0x22] (str_replace [CHR 0x22] [CHR 0x27] s)"

definition tier2_restore :: "string \<Rightarrow> string" where
  "tier2_restore s =
     str_replace ''TMP3'' [CHR 0x27, CHR ''('']
       (str_replace ''TMP1'' [CHR 0x27, CHR ''s'']
         (str_replace ''TMP2'' [CHR 0x27, CHR ''t''] s))"

text \<open>
  \<^verbatim>\<open>metadata_json[key]\<close>: a dict without the key raises \<^verbatim>\<open>KeyError\<close>; a list, a
  string, a number, a boolean or \<^verbatim>\<open>None\<close> indexed by a string raises \<^verbatim>\<open>TypeError\<close>.
\<close>

fun getitem :: "json \<Rightarrow> string \<Rightarrow> error + json" where
  "getitem (JObject d) key = (case map_of d key of None \<Rightarrow> Inl (KeyError key) | Some v \<Rightarrow> Inr v)"
| "getitem _ key = Inl TypeError"

text \<open>
  The dict that \<^verbatim>\<open>preprocess_annotator_metadata\<close> returns, as an association list
  in the order of the dict display; its five items are evaluated in that order, so
  the first failing lookup is the one that raises.
\<close>

definition preprocess_annotator_metadata :: "string \<Rightarrow> error + (string \<times> json) list" where
  "preprocess_annotator_metadata metadata =
     (case fix_json_structure metadata of
        Inl e \<Rightarrow> Inl e
      | Inr metadata_json \<Rightarrow>
     (case getitem metadata_json ''Steps'' of
        Inl e \<Rightarrow> Inl e
      | Inr steps \<Rightarrow>
     (case getitem metadata_json ''Number of steps'' of
        Inl e \<Rightarrow> Inl e
      | Inr num_steps \<Rightarrow>
     (case getitem metadata_json ''How long did this take?'' of
        Inl e \<Rightarrow> Inl e
      | Inr time_taken \<Rightarrow>
     (case getitem metadata_json ''Tools'' of
        Inl e \<Rightarrow> Inl e
      | Inr tools \<Rightarrow>
     (case getitem metadata_json ''Number of tools'' of
        Inl e \<Rightarrow> Inl e
      | Inr num_tools \<Rightarrow>
          Inr [(''metadata_steps'', steps),
               (''metadata_num_steps'', num_steps),
               (''metadata_time_taken'', time_taken),
               (''metadata_tools'', tools),
               (''metadata_num_tools'', num_tools)]))))))"

text \<open>
  The value of a key in an association list, \<^verbatim>\<open>null\<close> for an absent key; used to
  state what a record holds.
\<close>

definition lookup_json :: "(string \<times> json) list \<Rightarrow> string \<Rightarrow> json" where
  "lookup_json d key = (case map_of d key of Some v \<Rightarrow> v | None \<Rightarrow> JNull)"

subsection \<open>The coercion of the \<^verbatim>\<open>metadata_num_tools\<close> column\<close>

text \<open>
  Lines 58-60: \<^verbatim>\<open>pd.to_numeric(column, errors="coerce").astype("Int64")\<close>, for the
  column as it stands after lines 50-55, one cell per row, each cell the value that
  \<^verbatim>\<open>preprocess_annotator_metadata\<close> put under \<open>metadata_num_tools\<close>. The pandas
  functions are not part of the repository and work on binary64 numbers; they are
  written out for the cells whose treatment does not depend on floating-point
  rounding, and a column with any other cell is outside the model (the result \<open>None\<close>
  of \<open>coerce_num_tools\<close>). The cells covered:
  \<^item> \<^verbatim>\<open>null\<close>, and the float constants \<^verbatim>\<open>NaN\<close>, \<^verbatim>\<open>Infinity\<close>, \<^verbatim>\<open>-Infinity\<close>, which
    line 50 writes as \<^verbatim>\<open>null\<close>: \<^verbatim>\<open>to_numeric\<close> gives NaN;
  \<^item> a text that the library's number reader rejects: with \<^verbatim>\<open>errors="coerce"\<close>
    \<^verbatim>\<open>to_numeric\<close> gives NaN. The reader (\<^verbatim>\<open>floatify\<close>, over \<^verbatim>\<open>to_double\<close>) is C
    code and sees the text as a C string, the bytes before the first NUL. It accepts
    an optional sign, digits with an optional decimal point, at least one digit in
    all, an optional exponent, and blanks around it; or one of the words \<^verbatim>\<open>inf\<close>
    and \<^verbatim>\<open>infinity\<close>, signed or not, in any letter case. A text it accepts is a
    number whose value is outside the model;
  \<^item> an integer of magnitude up to \<open>2 ^ 53\<close>, which every path through the column
    keeps exactly;
  \<^item> a float literal \<open>k.5\<close> of magnitude below \<open>2 ^ 52\<close>: binary64 holds it exactly,
    line 50 writes it back as it is, and it is not a whole number.
  \<^verbatim>\<open>astype("Int64")\<close> turns NaN into the missing value \<^verbatim>\<open><NA>\<close> (here \<open>None\<close>), keeps
  a whole number, and raises \<^verbatim>\<open>TypeError\<close> ("cannot safely cast non-equivalent float64
  to int64") when the column holds a number that is not whole. A table without rows
  has no columns after line 51, so the column lookup of line 59 raises \<^verbatim>\<open>KeyError\<close>.
\<close>

definition is_space :: "char \<Rightarrow> bool" where
  "is_space c \<longleftrightarrow> c \<in> set [CHR '' '', CHR 0x09, CHR 0x0A, CHR 0x0B, CHR 0x0C, CHR 0x0D]"

text \<open>Whether \<^verbatim>\<open>to_double\<close> reads the whole text as a number.\<close>

definition to_double :: "string \<Rightarrow> bool" where
  "to_double s =
     (let p0 = dropWhile is_space s;
          p1 =
            (case p0 of
               c # r \<Rightarrow> if c = CHR ''-'' \<or> c = CHR ''+'' then r else p0
             | [] \<Rightarrow> p0);
          ds = takeWhile is_digit p1;
          p2 = dropWhile is_digit p1;
          (fs, p3) =
            (case p2 of
               c # r \<Rightarrow>
                 if c = CHR ''.'' then (takeWhile is_digit r, dropWhile is_digit r) else ([], p2)
             | [] \<Rightarrow> ([], p2));
          (exp, p4) = match_exp p3
      in (ds \<noteq> [] \<or> fs \<noteq> []) \<and> dropWhile is_space p4 = [])"

definition ascii_lower :: "char \<Rightarrow> char" where
  "ascii_lower c =
     (case map_of (zip ''ABCDEFGHIJKLMNOPQRSTUVWXYZ'' ''abcdefghijklmnopqrstuvwxyz'') c of
        Some l \<Rightarrow> l
      | None \<Rightarrow> c)"

definition inf_words :: "string list" where
  "inf_words = [''inf'', ''+inf'', ''-inf'', ''infinity'', ''+infinity'', ''-infinity'']"

text \<open>
  The text as the reader sees it, and whether \<^verbatim>\<open>floatify\<close> reads it as a number,
  finite or infinite.
\<close>

definition c_str :: "string \<Rightarrow> string" where
  "c_str s = takeWhile (\<lambda>c. c \<noteq> CHR 0x00) s"

definition floatify :: "string \<Rightarrow> bool" where
  "floatify s \<longleftrightarrow> to_double (c_str s) \<or> map ascii_lower (c_str s) \<in> set inf_words"

text \<open>
  A cell of the column after \<^verbatim>\<open>to_numeric\<close>: NaN, a whole number, or a number that
  is not whole.
\<close>

datatype numeric_cell = Missing | Whole int | NotWhole

fun to_numeric_coerce :: "json \<Rightarrow> numeric_cell option" where
  "to_numeric_coerce JNull = Some Missing"
| "to_numeric_coerce (JString s) = (if floatify s then None else Some Missing)"
| "to_numeric_coerce (JInt n) =
     (if - (2 ^ 53) \<le> n \<and> n \<le> 2 ^ 53 then Some (Whole n) else None)"
| "to_numeric_coerce (JFloat f) =
     (case f of
        Decimal m e \<Rightarrow>
          if e = - 1 \<and> \<bar>m\<bar> mod 10 = 5 \<and> \<bar>m\<bar> < 10 * 2 ^ 52 then Some NotWhole else None
      | _ \<Rightarrow> Some Missing)"
| "to_numeric_coerce (JBool b) = None"
| "to_numeric_coerce (JArray xs) = None"
| "to_numeric_coerce (JObject d) = None"

definition astype_Int64 :: "numeric_cell list \<Rightarrow> error + int option list" where
  "astype_Int64 column =
     (if NotWhole \<in> set column then Inl TypeError
      else Inr (map (\<lambda>c. case c of Whole n \<Rightarrow> Some n | _ \<Rightarrow> None) column))"

definition coerce_num_tools :: "json list \<Rightarrow> (error + int option list) option" where
  "coerce_num_tools column =
     (if column = [] then Some (Inl (KeyError ''metadata_num_tools''))
      else map_option astype_Int64 (those (map to_numeric_coerce column)))"

text \<open>
  The cells the amended claim about the coercion speaks of: a text with no decimal
  digit that is not one of the infinity words, nor one of them followed by a NUL; a
  cell that is \<^verbatim>\<open>null\<close>, such a text, or an integer of magnitude up to \<open>2 ^ 53\<close>; a
  float \<open>k.5\<close> as above; and what the nullable integer column is to hold for a cell.
\<close>

definition non_numeric_text :: "string \<Rightarrow> bool" where
  "non_numeric_text s \<longleftrightarrow>
     list_all (\<lambda>c. \<not> is_digit c) s \<and> map ascii_lower (c_str s) \<notin> set inf_words"

fun null_text_or_int :: "json \<Rightarrow> bool" where
  "null_text_or_int JNull = True"
| "null_text_or_int (JString s) = non_numeric_text s"
| "null_text_or_int (JInt n) = (- (2 ^ 53) \<le> n \<and> n \<le> 2 ^ 53)"
| "null_text_or_int _ = False"


fun int_or_null :: "json \<Rightarrow> int option" where
  "int_or_null (JInt n) = Some n"
| "int_or_null _ = None"

subsection \<open>The new \<^verbatim>\<open>file_path\<close> column\<close>

text \<open>
  Lines 63-65: \<^verbatim>\<open>"damg7374-a1-store/" + flattened_dataset_df["file_name"]\<close>, for the
  \<open>file_name\<close> column as it stands there, one cell per row: a text, \<^verbatim>\<open>null\<close> for an
  empty field (\<^verbatim>\<open>read_csv\<close> reads it as a missing value), or a number or a boolean
  when \<^verbatim>\<open>read_csv\<close> took the column for one of these.

  \<open>str_add\<close> is Python's \<^verbatim>\<open>+\<close> with a \<^verbatim>\<open>str\<close> on the left: concatenation with a
  \<^verbatim>\<open>str\<close>, \<^verbatim>\<open>TypeError\<close> with anything else. The column operation applies it to
  the cells that are not missing and leaves a missing cell missing; the first
  \<^verbatim>\<open>TypeError\<close> ends it. A table without rows has no \<open>file_name\<close> column.
\<close>

fun str_add :: "string \<Rightarrow> json \<Rightarrow> error + json" where
  "str_add lit (JString name) = Inr (JString (lit @ name))"
| "str_add lit _ = Inl TypeError"

text \<open>The first exception of a pass over a column ends the pass.\<close>

fun apply_rows :: "('a \<Rightarrow> error + 'b) \<Rightarrow> 'a list \<Rightarrow> error + 'b list" where
  "apply_rows f [] = Inr []"
| "apply_rows f (x # xs) =
     (case f x of
        Inl e \<Rightarrow> Inl e
      | Inr y \<Rightarrow> (case apply_rows f xs of Inl e \<Rightarrow> Inl e | Inr ys \<Rightarrow> Inr (y # ys)))"

definition file_path_column :: "json list \<Rightarrow> error + json list" where
  "file_path_column file_name =
     (if file_name = [] then Inl (KeyError ''file_name'')
      else apply_rows (\<lambda>c. if c = JNull then Inr JNull else str_add ''damg7374-a1-store/'' c)
             file_name)"

text \<open>
  The cells the amended claim about \<open>file_path\<close> speaks of (a text or an empty
  field), and the cell it names for each.
\<close>

fun text_or_missing :: "json \<Rightarrow> bool" where
  "text_or_missing JNull = True"
| "text_or_missing (JString name) = True"
| "text_or_missing _ = False"

fun bucket_path :: "json \<Rightarrow> json" where
  "bucket_path (JString name) = JString (''damg7374-a1-store/'' @ name)"
| "bucket_path c = JNull"

subsection \<open>\<^verbatim>\<open>load_datasets_from_filesystem\<close> and \<^verbatim>\<open>main\<close>\<close>

text \<open>
  What the run does to the world outside, in order: the table written to the fixed
  path \<^verbatim>\<open>resources/cleaned_datasets/1.csv\<close> after each file, and in \<^verbatim>\<open>main\<close> the calls
  to the database collaborators (taken to succeed). \<^typ>\<open>'df\<close> is the type of a table.
\<close>

datatype 'df event =
    ToCsv string 'df
  | GetPostgresConnString
  | CreateEngine
  | CreateTables
  | Connect
  | ToSql string 'df

text \<open>
  \<open>file_list\<close> is the list of paths \<^verbatim>\<open>glob\<close> returns. The body of the loop up to the
  new \<open>file_path\<close> column (lines 42-65: \<^verbatim>\<open>read_csv\<close>, the pass of
  \<^verbatim>\<open>preprocess_annotator_metadata\<close>, the flattening, the coercion, the new column) is
  pandas working on the file's content; the loop takes it as the parameter
  \<open>process\<close>, from a path to the flattened table or the exception raised on the way.
  \<open>load_files\<close> is the \<^verbatim>\<open>for\<close> loop, with the dict \<^verbatim>\<open>cleaned_datasets\<close> built so far
  and the events so far.
\<close>

fun load_files ::
  "(string \<Rightarrow> error + 'df) \<Rightarrow> string list \<Rightarrow> (string \<times> 'df) list \<Rightarrow> 'df event list
     \<Rightarrow> 'df event list \<times> (error + (string \<times> 'df) list)" where
  "load_files process [] cleaned_datasets evs = (evs, Inr cleaned_datasets)"
| "load_files process (file # file_list) cleaned_datasets evs =
     (case process file of
        Inl e \<Rightarrow> (evs, Inl e)
      | Inr flattened_dataset_df \<Rightarrow>
          load_files process file_list
            (AList.update file flattened_dataset_df cleaned_datasets)
            (evs @ [ToCsv ''resources/cleaned_datasets/1.csv'' flattened_dataset_df]))"

definition load_datasets_from_filesystem ::
  "(string \<Rightarrow> error + 'df) \<Rightarrow> string list
     \<Rightarrow> 'df event list \<times> (error + (string \<times> 'df) list)" where
  "load_datasets_from_filesystem process file_list =
     (if length file_list = 0
      then ([], Inl (ValueError ''There are no datasets available in the resources path''))
      else load_files process file_list [] [])"

definition main :: "(string \<Rightarrow> error + 'df) \<Rightarrow> string list \<Rightarrow> 'df event list \<times> (error + unit)" where
  "main process file_list =
     (case load_datasets_from_filesystem process file_list of
        (evs, Inl e) \<Rightarrow> (evs, Inl e)
      | (evs, Inr dataframes) \<Rightarrow>
          (evs @ [GetPostgresConnString, CreateEngine, CreateTables, Connect]
             @ map (\<lambda>(df_name, df). ToSql ''test_cases'' df) dataframes,
           Inr ()))"

text \<open>
  The hypotheses of the claim about contractions: every single quote of the text is
  followed by \<open>s\<close>, \<open>t\<close> or \<open>(\<close>; and the text contains none of the three
  sentinel texts.
\<close>

fun quotes_in_contractions :: "string \<Rightarrow> bool" where
  "quotes_in_contractions [] = True"
| "quotes_in_contractions [c] = (c \<noteq> CHR 0x27)"
| "quotes_in_contractions (c # d # cs) =
     (if c = CHR 0x27 then d \<in> set ''st('' \<and> quotes_in_contractions cs
      else quotes_in_contractions (d # cs))"

definition no_sentinel :: "string \<Rightarrow> bool" where
  "no_sentinel s \<longleftrightarrow> \<not> sublist ''TMP1'' s \<and> \<not> sublist ''TMP2'' s \<and> \<not> sublist ''TMP3'' s"

text \<open>
  Two properties of a text used in the proofs about the decoder: no single quote
  comes before the first double quote; and the text has no quote of either kind.
\<close>

definition no_squote_first :: "string \<Rightarrow> bool" where
  "no_squote_first s \<longleftrightarrow> CHR 0x27 \<notin> set (takeWhile (\<lambda>c. c \<noteq> CHR 0x22) s)"

definition quote_free :: "string \<Rightarrow> bool" where
  "quote_free s \<longleftrightarrow> CHR 0x27 \<notin> set s \<and> CHR 0x22 \<notin> set s"

subsection \<open>Facts about \<^verbatim>\<open>str.replace\<close>\<close>

lemma str_replace_char:
  "str_replace [a] new s = concat (map (\<lambda>c. if c = a then new else [c]) s)"
  by (induction s) auto

lemma str_replace_char_char:
  "str_replace [a] [b] s = map (\<lambda>c. if c = a then b else c) s"
  by (induction s) auto

lemma str_replace_prefix_keep:
  assumes "old \<noteq> []" "new \<noteq> []" "hd new \<notin> set w"
    and "prefix w (str_replace old new s)"
  shows "prefix w s"
  using assms
proof (induction w arbitrary: s)
  case Nil
  then show ?case by simp
next
  case (Cons a w)
  show ?case
  proof (cases s)
    case Nil
    with Cons.prems show ?thesis by simp
  next
    case (Cons c cs)
    show ?thesis
    proof (cases "prefix old (c # cs)")
      case True
      with Cons.prems(1,2,3,4) \<open>s = c # cs\<close> have False
        by (cases new) auto
      then show ?thesis ..
    next
      case False
      with Cons.prems \<open>s = c # cs\<close> have "a = c" "prefix w (str_replace old new cs)"
        by auto
      moreover from Cons.prems have "hd new \<notin> set w" by simp
      ultimately show ?thesis
        using Cons.IH[of cs] Cons.prems(1,2) \<open>s = c # cs\<close> by simp
    qed
  qed
qed

lemma str_replace_append_free:
  assumes "old \<noteq> []" "hd old \<notin> set u"
  shows "str_replace old new (u @ y) = u @ str_replace old new y"
  using assms
proof (induction u)
  case Nil
  then show ?case by simp
next
  case (Cons a u)
  then have "\<not> prefix old (a # u @ y)"
    by (cases old) auto
  with Cons show ?case by simp
qed



lemma str_replace_match:
  assumes "old \<noteq> []"
  shows "str_replace old new (old @ r) = new @ str_replace old new r"
proof (cases old)
  case Nil
  with assms show ?thesis by simp
next
  case (Cons a as)
  then show ?thesis by simp
qed

lemma str_replace_nomatch:
  "old \<noteq> [] \<Longrightarrow> \<not> prefix old (c # cs) \<Longrightarrow>
     str_replace old new (c # cs) = c # str_replace old new cs"
  by simp

lemma str_replace_roundtrip:
  assumes "old \<noteq> []" "t \<notin> set w" "\<not> sublist (t # w) s"
  shows "str_replace (t # w) old (str_replace old (t # w) s) = s"
  using assms(3)
proof (induction s rule: length_induct)
  case (1 s)
  show ?case
  proof (cases s)
    case Nil
    with assms(1) show ?thesis by simp
  next
    case (Cons c cs)
    show ?thesis
    proof (cases "prefix old s")
      case True
      then obtain r where r: "s = old @ r" by (auto simp: prefix_def)
      have "length r < length s" using r assms(1) by simp
      moreover have "\<not> sublist (t # w) r"
        using "1.prems" r by (metis sublist_append)
      ultimately have ih: "str_replace (t # w) old (str_replace old (t # w) r) = r"
        using "1.IH" by blast
      have "str_replace old (t # w) s = (t # w) @ str_replace old (t # w) r"
        unfolding r by (rule str_replace_match[OF assms(1)])
      moreover have "str_replace (t # w) old ((t # w) @ str_replace old (t # w) r)
          = old @ str_replace (t # w) old (str_replace old (t # w) r)"
        by (rule str_replace_match) simp
      ultimately show ?thesis using ih r by simp
    next
      case False
      have ns: "\<not> sublist (t # w) cs"
        using "1.prems" Cons by (simp add: sublist_Cons_right)
      have np: "\<not> prefix (t # w) (c # cs)"
        using "1.prems" Cons by (simp add: sublist_Cons_right)
      have ih: "str_replace (t # w) old (str_replace old (t # w) cs) = cs"
        using "1.IH" ns Cons by simp
      have step: "str_replace old (t # w) s = c # str_replace old (t # w) cs"
        unfolding Cons using False Cons assms(1) by (intro str_replace_nomatch) simp_all
      have "\<not> prefix (t # w) (c # str_replace old (t # w) cs)"
      proof
        assume p: "prefix (t # w) (c # str_replace old (t # w) cs)"
        from p have ct: "c = t" by simp
        from p have "prefix w (str_replace old (t # w) cs)"
          unfolding Cons_prefix_Cons by (rule conjunct2)
        then have "prefix w cs"
          using str_replace_prefix_keep[of old "t # w" w cs] assms(1,2) by simp
        with ct np show False by simp
      qed
      then have "str_replace (t # w) old (c # str_replace old (t # w) cs)
          = c # str_replace (t # w) old (str_replace old (t # w) cs)"
        by (intro str_replace_nomatch) simp_all
      with step ih Cons show ?thesis by simp
    qed
  qed
qed

lemma quote_steps_collapse:
  "str_replace [CHR 0x27] [CHR 0x22] (str_replace [CHR 0x22] [CHR 0x27] x) = map to_dquote x"
  by (simp add: str_replace_char_char to_dquote_def fun_eq_iff)

lemma swap_quotes_invol: "swap_quotes (swap_quotes c) = c"
  by (simp add: swap_quotes_def)

lemma prefix_map_fixed:
  assumes "\<And>c. f c \<in> set w \<Longrightarrow> f c = c" "prefix w (map f x)"
  shows "prefix w x"
  using assms
proof (induction w arbitrary: x)
  case Nil
  then show ?case by simp
next
  case (Cons a w)
  from Cons.prems(2) obtain c cs where x: "x = c # cs" by (cases x) auto
  with Cons.prems(2) have a: "a = f c" and p: "prefix w (map f cs)" by simp_all
  have "f c = c" using Cons.prems(1)[of c] a by simp
  moreover have "prefix w cs"
    using Cons.IH[OF _ p] Cons.prems(1) by simp
  ultimately show ?case using x a by simp
qed

lemma tier1_inner:
  "str_replace [CHR 0x27] [CHR 0x22] (str_replace [CHR 0x22] ''TMP1'' s)
     = concat (map (\<lambda>c. if c = CHR 0x22 then ''TMP1'' else if c = CHR 0x27 then [CHR 0x22] else [c]) s)"
  by (induction s) (simp_all add: str_replace_char_char)

lemma tier1_text_swap:
  assumes "\<not> sublist ''TMP1'' s"
  shows "tier1_text s = map swap_quotes s"
  using assms
proof (induction s)
  case Nil
  then show ?case by (simp add: tier1_text_def)
next
  case (Cons c cs)
  let ?u = "\<lambda>s. str_replace [CHR 0x27] [CHR 0x22] (str_replace [CHR 0x22] ''TMP1'' s)"
  have ns: "\<not> sublist ''TMP1'' cs" and np: "\<not> prefix ''TMP1'' (c # cs)"
    using Cons.prems by (simp_all add: sublist_Cons_right)
  have ih: "str_replace ''TMP1'' [CHR 0x27] (?u cs) = map swap_quotes cs"
    using Cons.IH[OF ns] by (simp add: tier1_text_def)
  show ?case
  proof (cases "c = CHR 0x22")
    case True
    have "?u (c # cs) = ''TMP1'' @ ?u cs"
      unfolding tier1_inner using True by simp
    then have "tier1_text (c # cs) = [CHR 0x27] @ str_replace ''TMP1'' [CHR 0x27] (?u cs)"
      unfolding tier1_text_def by (simp only: str_replace_match[of "''TMP1''"] list.distinct not_False_eq_True)
    with ih True show ?thesis by (simp add: swap_quotes_def)
  next
    case False
    have u: "?u (c # cs) = swap_quotes c # ?u cs"
      unfolding tier1_inner using False by (simp add: swap_quotes_def)
    have "\<not> prefix ''TMP1'' (swap_quotes c # ?u cs)"
    proof
      assume p: "prefix ''TMP1'' (swap_quotes c # ?u cs)"
      then have "swap_quotes c = CHR ''T''" by simp
      then have c: "c = CHR ''T''" by (simp add: swap_quotes_def split: if_splits)
      from p have "prefix ''MP1'' (?u cs)" unfolding Cons_prefix_Cons by (rule conjunct2)
      then have "prefix ''MP1'' (str_replace [CHR 0x22] ''TMP1'' cs)"
        by (rule str_replace_prefix_keep[rotated 3]) simp_all
      then have "prefix ''MP1'' cs"
        by (rule str_replace_prefix_keep[rotated 3]) simp_all
      with c np show False by simp
    qed
    then have "str_replace ''TMP1'' [CHR 0x27] (swap_quotes c # ?u cs)
        = swap_quotes c # str_replace ''TMP1'' [CHR 0x27] (?u cs)"
      by (intro str_replace_nomatch) simp_all
    with u ih show ?thesis by (simp add: tier1_text_def)
  qed
qed

lemma sublist_map_swap_quotes:
  assumes "sublist ''TMP1'' (map swap_quotes s)"
  shows "sublist ''TMP1'' s"
proof -
  have "sublist (map swap_quotes ''TMP1'') (map swap_quotes (map swap_quotes s))"
    using assms by (rule map_mono_sublist)
  moreover have "map swap_quotes (map swap_quotes s) = s"
    by (simp add: swap_quotes_invol comp_def)
  moreover have "map swap_quotes ''TMP1'' = ''TMP1''"
    by (simp add: swap_quotes_def)
  ultimately show ?thesis by simp
qed

lemma tier1_text_collision: "tier1_text ''TMP1'' = [CHR 0x27]"
  by (simp add: tier1_text_def)

text \<open>
  Claim C10. On an input that does not contain the sentinel text \<open>TMP1\<close>, the Tier 1
  transformation exchanges every double quote with a single quote and vice versa and
  leaves every other character alone, so applying it twice gives the input back; and
  there is an input containing \<open>TMP1\<close> on which it is not that exchange.
\<close>

theorem tier1_text_exchanges_quotes:
  "(\<not> sublist ''TMP1'' s \<longrightarrow>
      tier1_text s = map swap_quotes s \<and> tier1_text (tier1_text s) = s)
   \<and> (\<exists>t. sublist ''TMP1'' t \<and> tier1_text t \<noteq> map swap_quotes t)"
proof (intro conjI impI)
  assume ns: "\<not> sublist ''TMP1'' s"
  then show eq: "tier1_text s = map swap_quotes s" by (rule tier1_text_swap)
  from ns have "\<not> sublist ''TMP1'' (map swap_quotes s)"
    using sublist_map_swap_quotes by blast
  then have "tier1_text (map swap_quotes s) = map swap_quotes (map swap_quotes s)"
    by (rule tier1_text_swap)
  with eq show "tier1_text (tier1_text s) = s"
    by (simp add: swap_quotes_invol comp_def)
next
  have "sublist ''TMP1'' ''TMP1''" by simp
  moreover have "tier1_text ''TMP1'' \<noteq> map swap_quotes ''TMP1''"
    by (simp add: tier1_text_collision swap_quotes_def)
  ultimately show "\<exists>t. sublist ''TMP1'' t \<and> tier1_text t \<noteq> map swap_quotes t" by blast
qed

theorem tier1_text_exchanges_quotes_witness:
  \<open>\<not> sublist ''TMP1'' ''{'a': "b"}'' \<and> tier1_text ''{'a': "b"}'' = ''{"a": 'b'}''
    \<and> tier1_text ''{"a": 'b'}'' = ''{'a': "b"}''\<close>
proof -
  have ns: \<open>\<not> sublist ''TMP1'' ''{'a': "b"}''\<close> by (simp add: sublist_code)
  from tier1_text_exchanges_quotes[of \<open>''{'a': "b"}''\<close>] ns
  have \<open>tier1_text ''{'a': "b"}'' = map swap_quotes ''{'a': "b"}''\<close>
    and \<open>tier1_text (tier1_text ''{'a': "b"}'') = ''{'a': "b"}''\<close> by blast+
  then show ?thesis using ns by (simp add: swap_quotes_def)
qed

subsection \<open>Facts about the decoder\<close>

lemma match_frac_shorter: "match_frac s = (frac, r) \<Longrightarrow> length r \<le> length s"
  using length_dropWhile_le[of is_digit "tl s"]
  by (auto simp: match_frac_def split: list.splits if_splits)

lemma match_exp_shorter: "match_exp s = (exp, r) \<Longrightarrow> length r \<le> length s"
proof (cases s)
  case Nil
  then show "match_exp s = (exp, r) \<Longrightarrow> length r \<le> length s"
    by (simp add: match_exp_def)
next
  case (Cons c t)
  assume m: "match_exp s = (exp, r)"
  show "length r \<le> length s"
  proof (cases t)
    case Nil
    with Cons m show ?thesis
      by (auto simp: match_exp_def split: if_splits)
  next
    case (Cons d u)
    have "length (dropWhile is_digit u) \<le> length u" "length (dropWhile is_digit t) \<le> length t"
      by (rule length_dropWhile_le)+
    with Cons \<open>s = c # t\<close> m show ?thesis
      by (auto simp: match_exp_def split: if_splits)
  qed
qed

lemma match_number_shorter:
  assumes "match_number s = Some (v, r)"
  shows "length r < length s"
proof -
  obtain neg s1 where s1: "(case s of c # r \<Rightarrow> if c = CHR ''-'' then (True, r) else (False, s)
      | [] \<Rightarrow> (False, s)) = (neg, s1)"
    by (cases "case s of c # r \<Rightarrow> if c = CHR ''-'' then (True, r) else (False, s)
      | [] \<Rightarrow> (False, s)") auto
  then have l1: "length s1 \<le> length s"
    by (auto split: list.splits if_splits)
  from assms s1 obtain d t where t: "s1 = d # t"
    by (cases s1) (auto simp: match_number_def)
  obtain integer s2 where s2: "(if d = CHR ''0'' then ([d], t)
      else (d # takeWhile is_digit t, dropWhile is_digit t)) = (integer, s2)"
    by (cases "if d = CHR ''0'' then ([d], t)
      else (d # takeWhile is_digit t, dropWhile is_digit t)") auto
  then have l2: "length s2 \<le> length t"
    using length_dropWhile_le[of is_digit t] by (auto split: if_splits)
  obtain frac s3 where s3: "match_frac s2 = (frac, s3)" by (cases "match_frac s2") auto
  obtain exp s4 where s4: "match_exp s3 = (exp, s4)" by (cases "match_exp s3") auto
  from assms s1 t s2 s3 s4 have "r = s4"
    by (auto simp: match_number_def split: if_splits)
  with l1 l2 t match_frac_shorter[OF s3] match_exp_shorter[OF s4] show ?thesis by simp
qed

text \<open>
  A value that is read consumes at least one character, so the two length tests in
  \<open>JSONArray\<close> and \<open>JSONObject\<close> never fail.
\<close>

lemma scan_once_shorter:
  "(scan_once s = Some (v, e) \<longrightarrow> length e < length s)"
  "(JSONArray s1 = Some (vs, e1) \<longrightarrow> length e1 < length s1)"
  "(JSONObject s2 = Some (ps, e2) \<longrightarrow> length e2 < length s2)"
proof (induction s and s1 and s2 arbitrary: v e and vs e1 and ps e2
    rule: scan_once_JSONArray_JSONObject.induct)
  case 1
  show ?case by (simp add: scan_once.simps)
next
  case (2 nextchar rest)
  show ?case
  proof
    assume a: "scan_once (nextchar # rest) = Some (v, e)"
    consider (str) "nextchar = CHR 0x22"
      | (obj) "nextchar \<noteq> CHR 0x22" "nextchar = CHR ''{''"
      | (arr) "nextchar \<noteq> CHR 0x22" "nextchar \<noteq> CHR ''{''" "nextchar = CHR ''[''"
      | (other) "nextchar \<noteq> CHR 0x22" "nextchar \<noteq> CHR ''{''" "nextchar \<noteq> CHR ''[''"
      by blast
    then show "length e < length (nextchar # rest)"
    proof cases
      case str
      with a obtain x where "scanstring rest = Some (x, e)"
        by (auto simp: scan_once.simps split: option.splits)
      then show ?thesis using scanstring_shorter by fastforce
    next
      case obj
      with a obtain c after where sk: "skip_ws rest = c # after"
        by (cases "skip_ws rest") (auto simp: scan_once.simps)
      show ?thesis
      proof (cases "c = CHR ''}''")
        case True
        with a obj sk have "e = after" by (simp add: scan_once.simps)
        with skip_ws_Cons_length[OF sk] show ?thesis by simp
      next
        case False
        with a obj sk have q: "c = CHR 0x22"
          by (auto simp: scan_once.simps split: if_splits)
        with a obj sk False obtain pairs where "JSONObject after = Some (pairs, e)"
          by (auto simp: scan_once.simps split: option.splits)
        with 2(1)[OF refl obj sk False q] have "length e < length after" by blast
        with skip_ws_Cons_length[OF sk] show ?thesis by simp
      qed
    next
      case arr
      with a obtain c after where sk: "skip_ws rest = c # after"
        by (cases "skip_ws rest") (auto simp: scan_once.simps)
      show ?thesis
      proof (cases "c = CHR '']''")
        case True
        with a arr sk have "e = after" by (simp add: scan_once.simps)
        with skip_ws_Cons_length[OF sk] show ?thesis by simp
      next
        case False
        with a arr sk obtain vals where "JSONArray (c # after) = Some (vals, e)"
          by (auto simp: scan_once.simps split: option.splits)
        with 2(2)[OF refl arr sk False] have "length e < length (c # after)" by blast
        with length_skip_ws[of rest] sk show ?thesis by simp
      qed
    next
      case other
      with a have
        "e \<in> (\<lambda>k. drop k (nextchar # rest)) ` {3, 4, 5, 8, 9}
          \<or> match_number (nextchar # rest) = Some (v, e)"
        by (auto simp: scan_once.simps Let_def split: if_splits option.splits)
      then show ?thesis
        using match_number_shorter[of "nextchar # rest" v e] by auto
    qed
  qed
next
  case (3 s)
  show ?case
  proof
    assume a: "JSONArray s = Some (vs, e1)"
    then obtain v en where so: "scan_once s = Some (v, en)"
      by (cases "scan_once s") (auto simp: JSONArray.simps[of s])
    with a have lt: "length en < length s"
      by (auto simp: JSONArray.simps[of s] split: if_splits)
    with a so obtain c after where sk: "skip_ws en = c # after"
      by (cases "skip_ws en") (auto simp: JSONArray.simps[of s])
    note l = skip_ws_Cons_length[OF sk]
    show "length e1 < length s"
    proof (cases "c = CHR '']''")
      case True
      with a so lt sk have "e1 = after" by (simp add: JSONArray.simps[of s])
      with l lt show ?thesis by simp
    next
      case False
      with a so lt sk have comma: "c = CHR '',''"
        by (auto simp: JSONArray.simps[of s] split: if_splits)
      with a so lt sk False obtain vals where "JSONArray (skip_ws after) = Some (vals, e1)"
        by (auto simp: JSONArray.simps[of s] split: option.splits)
      with 3(2)[OF so refl lt sk False comma] have "length e1 < length (skip_ws after)"
        by blast
      with length_skip_ws[of after] l lt show ?thesis by simp
    qed
  qed
next
  case (4 s)
  show ?case
  proof
    assume a: "JSONObject s = Some (ps, e2)"
    then obtain key en where ss: "scanstring s = Some (key, en)"
      by (cases "scanstring s") (auto simp: JSONObject.simps[of s])
    with a obtain colon after where sk: "skip_ws en = colon # after"
      by (cases "skip_ws en") (auto simp: JSONObject.simps[of s])
    with a ss have col: "\<not> colon \<noteq> CHR '':''"
      by (auto simp: JSONObject.simps[of s] split: if_splits)
    with a ss sk obtain v en' where so: "scan_once (skip_ws after) = Some (v, en')"
      by (cases "scan_once (skip_ws after)") (auto simp: JSONObject.simps[of s])
    with a ss sk col have lt: "length en' < length s"
      by (auto simp: JSONObject.simps[of s] split: if_splits)
    with a ss sk col so obtain c after' where sk': "skip_ws en' = c # after'"
      by (cases "skip_ws en'") (auto simp: JSONObject.simps[of s])
    note l = skip_ws_Cons_length[OF sk']
    show "length e2 < length s"
    proof (cases "c = CHR ''}''")
      case True
      with a ss sk col so lt sk' have "e2 = after'" by (simp add: JSONObject.simps[of s])
      with l lt show ?thesis by simp
    next
      case False
      with a ss sk col so lt sk' have comma: "c = CHR '',''"
        by (auto simp: JSONObject.simps[of s] split: if_splits)
      with a ss sk col so lt sk' False obtain q after'' where sk'': "skip_ws after' = q # after''"
        by (cases "skip_ws after'") (auto simp: JSONObject.simps[of s])
      with a ss sk col so lt sk' False comma have q: "q = CHR 0x22"
        by (auto simp: JSONObject.simps[of s] split: if_splits)
      with a ss sk col so lt sk' False comma sk'' obtain pairs where
        "JSONObject after'' = Some (pairs, e2)"
        by (auto simp: JSONObject.simps[of s] split: option.splits)
      with 4(2)[OF ss refl sk col so refl lt sk' False comma sk'' q]
      have "length e2 < length after''" by blast
      with skip_ws_Cons_length[OF sk''] l lt show ?thesis by simp
    qed
  qed
qed

subsection \<open>Facts about the Tier 2 text\<close>

lemma tier2_text_phases: "tier2_text m = tier2_restore (tier2_quotes (tier2_protect m))"
  by (simp add: tier2_text_def tier2_restore_def tier2_quotes_def tier2_protect_def)

lemma tier2_quotes_map: "tier2_quotes s = map to_dquote s"
  by (simp add: tier2_quotes_def quote_steps_collapse)

lemma tier2_protect_Nil: "tier2_protect [] = []"
  by (simp add: tier2_protect_def)

lemma tier2_protect_plain:
  assumes "c \<noteq> CHR 0x27"
  shows "tier2_protect (c # cs) = c # tier2_protect cs"
  using assms by (simp add: tier2_protect_def)

lemma tier2_protect_s:
  "tier2_protect (CHR 0x27 # CHR ''s'' # cs) = ''TMP1'' @ tier2_protect cs"
  by (simp add: tier2_protect_def)

lemma tier2_protect_t:
  "tier2_protect (CHR 0x27 # CHR ''t'' # cs) = ''TMP2'' @ tier2_protect cs"
  by (simp add: tier2_protect_def)

lemma tier2_protect_paren:
  "tier2_protect (CHR 0x27 # CHR ''('' # cs) = ''TMP3'' @ tier2_protect cs"
  by (simp add: tier2_protect_def)

lemma prefix_tier2_protect:
  assumes "CHR ''T'' \<notin> set w" "prefix w (tier2_protect x)"
  shows "prefix w x"
proof -
  from assms(2) have "prefix w (str_replace [CHR 0x27, CHR ''t''] ''TMP2''
      (str_replace [CHR 0x27, CHR ''s''] ''TMP1'' x))"
    unfolding tier2_protect_def
    by (rule str_replace_prefix_keep[rotated 3]) (use assms(1) in simp_all)
  then have "prefix w (str_replace [CHR 0x27, CHR ''s''] ''TMP1'' x)"
    by (rule str_replace_prefix_keep[rotated 3]) (use assms(1) in simp_all)
  then show ?thesis
    by (rule str_replace_prefix_keep[rotated 3]) (use assms(1) in simp_all)
qed

lemma prefix_tier2_restore:
  assumes "CHR 0x27 \<notin> set w" "prefix w (tier2_restore x)"
  shows "prefix w x"
proof -
  from assms(2) have "prefix w (str_replace ''TMP1'' [CHR 0x27, CHR ''s'']
      (str_replace ''TMP2'' [CHR 0x27, CHR ''t''] x))"
    unfolding tier2_restore_def
    by (rule str_replace_prefix_keep[rotated 3]) (use assms(1) in simp_all)
  then have "prefix w (str_replace ''TMP2'' [CHR 0x27, CHR ''t''] x)"
    by (rule str_replace_prefix_keep[rotated 3]) (use assms(1) in simp_all)
  then show ?thesis
    by (rule str_replace_prefix_keep[rotated 3]) (use assms(1) in simp_all)
qed

lemma tier2_restore_TMP1: "tier2_restore (''TMP1'' @ x) = CHR 0x27 # CHR ''s'' # tier2_restore x"
  by (simp add: tier2_restore_def)

lemma tier2_restore_TMP2: "tier2_restore (''TMP2'' @ x) = CHR 0x27 # CHR ''t'' # tier2_restore x"
  by (simp add: tier2_restore_def)

lemma tier2_restore_TMP3: "tier2_restore (''TMP3'' @ x) = CHR 0x27 # CHR ''('' # tier2_restore x"
  by (simp add: tier2_restore_def)

lemma tier2_restore_plain:
  assumes "c = CHR ''T'' \<longrightarrow> \<not> prefix ''MP1'' x \<and> \<not> prefix ''MP2'' x \<and> \<not> prefix ''MP3'' x"
  shows "tier2_restore (c # x) = c # tier2_restore x"
proof -
  let ?a = "str_replace ''TMP2'' [CHR 0x27, CHR ''t''] x"
  let ?b = "str_replace ''TMP1'' [CHR 0x27, CHR ''s''] ?a"
  have "\<not> prefix ''TMP2'' (c # x)" using assms by auto
  then have 1: "str_replace ''TMP2'' [CHR 0x27, CHR ''t''] (c # x) = c # ?a"
    by (intro str_replace_nomatch) simp_all
  have "\<not> prefix ''TMP1'' (c # ?a)"
  proof
    assume p: "prefix ''TMP1'' (c # ?a)"
    then have c: "c = CHR ''T''" by simp
    from p have "prefix ''MP1'' ?a" unfolding Cons_prefix_Cons by (rule conjunct2)
    then have "prefix ''MP1'' x"
      by (rule str_replace_prefix_keep[rotated 3]) simp_all
    with c assms show False by simp
  qed
  then have 2: "str_replace ''TMP1'' [CHR 0x27, CHR ''s''] (c # ?a) = c # ?b"
    by (intro str_replace_nomatch) simp_all
  have "\<not> prefix ''TMP3'' (c # ?b)"
  proof
    assume p: "prefix ''TMP3'' (c # ?b)"
    then have c: "c = CHR ''T''" by simp
    from p have "prefix ''MP3'' ?b" unfolding Cons_prefix_Cons by (rule conjunct2)
    then have "prefix ''MP3'' ?a"
      by (rule str_replace_prefix_keep[rotated 3]) simp_all
    then have "prefix ''MP3'' x"
      by (rule str_replace_prefix_keep[rotated 3]) simp_all
    with c assms show False by simp
  qed
  then have 3: "str_replace ''TMP3'' [CHR 0x27, CHR ''(''] (c # ?b)
      = c # str_replace ''TMP3'' [CHR 0x27, CHR ''(''] ?b"
    by (intro str_replace_nomatch) simp_all
  show ?thesis unfolding tier2_restore_def 1 2 3 by simp
qed

lemma no_sentinel_Cons: "no_sentinel (c # cs) \<Longrightarrow> no_sentinel cs"
  by (simp add: no_sentinel_def sublist_Cons_right)

lemma no_sentinel_prefix:
  "no_sentinel s \<Longrightarrow> \<not> prefix ''TMP1'' s \<and> \<not> prefix ''TMP2'' s \<and> \<not> prefix ''TMP3'' s"
  unfolding no_sentinel_def by (meson prefix_imp_sublist)

lemma prefix_map_to_dquote:
  assumes "CHR 0x22 \<notin> set w" "prefix w (map to_dquote x)"
  shows "prefix w x"
proof (rule prefix_map_fixed[OF _ assms(2)])
  fix c assume "to_dquote c \<in> set w"
  with assms(1) show "to_dquote c = c"
    by (auto simp: to_dquote_def split: if_splits)
qed

lemma tier2_text_identity:
  assumes "quotes_in_contractions m" "no_sentinel m"
  shows "tier2_text m = m"
  using assms
proof (induction m rule: quotes_in_contractions.induct)
  case 1
  show ?case by (simp add: tier2_text_def)
next
  case (2 c)
  then have "c \<noteq> CHR 0x27" by simp
  then show ?case by (simp add: tier2_text_def)
next
  case (3 c d cs)
  show ?case
  proof (cases "c = CHR 0x27")
    case True
    with 3(3) have d: "d = CHR ''s'' \<or> d = CHR ''t'' \<or> d = CHR ''(''" and q: "quotes_in_contractions cs"
      by auto
    have "no_sentinel cs" using 3(4) no_sentinel_Cons by blast
    with 3(1)[OF True] q have ih: "tier2_restore (map to_dquote (tier2_protect cs)) = cs"
      by (simp add: tier2_text_phases tier2_quotes_map)
    from d show ?thesis
    proof (elim disjE)
      assume "d = CHR ''s''"
      with True ih show ?thesis
        unfolding tier2_text_phases tier2_quotes_map
        by (simp only: tier2_protect_s map_append tier2_restore_TMP1) (simp add: to_dquote_def tier2_restore_TMP1[simplified])
    next
      assume "d = CHR ''t''"
      with True ih show ?thesis
        unfolding tier2_text_phases tier2_quotes_map
        by (simp only: tier2_protect_t map_append) (simp add: to_dquote_def tier2_restore_TMP2[simplified])
    next
      assume "d = CHR ''(''"
      with True ih show ?thesis
        unfolding tier2_text_phases tier2_quotes_map
        by (simp only: tier2_protect_paren map_append) (simp add: to_dquote_def tier2_restore_TMP3[simplified])
    qed
  next
    case False
    with 3(3) have q: "quotes_in_contractions (d # cs)" by simp
    have ns: "no_sentinel (d # cs)" using 3(4) no_sentinel_Cons by blast
    from 3(2)[OF False q ns] have ih: "tier2_restore (map to_dquote (tier2_protect (d # cs))) = d # cs"
      by (simp add: tier2_text_phases tier2_quotes_map)
    let ?x = "map to_dquote (tier2_protect (d # cs))"
    have keep: "prefix w ?x \<Longrightarrow> CHR ''T'' \<notin> set w \<Longrightarrow> CHR 0x22 \<notin> set w \<Longrightarrow> prefix w (d # cs)" for w
      using prefix_map_to_dquote prefix_tier2_protect by blast
    have "c = CHR ''T'' \<longrightarrow> \<not> prefix ''MP1'' ?x \<and> \<not> prefix ''MP2'' ?x \<and> \<not> prefix ''MP3'' ?x"
    proof
      assume c: "c = CHR ''T''"
      from no_sentinel_prefix[OF 3(4)] c
      have "\<not> prefix ''MP1'' (d # cs)" "\<not> prefix ''MP2'' (d # cs)" "\<not> prefix ''MP3'' (d # cs)"
        by simp_all
      moreover have "prefix ''MP1'' ?x \<Longrightarrow> prefix ''MP1'' (d # cs)" by (rule keep) simp_all
      moreover have "prefix ''MP2'' ?x \<Longrightarrow> prefix ''MP2'' (d # cs)" by (rule keep) simp_all
      moreover have "prefix ''MP3'' ?x \<Longrightarrow> prefix ''MP3'' (d # cs)" by (rule keep) simp_all
      ultimately show "\<not> prefix ''MP1'' ?x \<and> \<not> prefix ''MP2'' ?x \<and> \<not> prefix ''MP3'' ?x"
        by blast
    qed
    then have "tier2_restore (c # ?x) = c # tier2_restore ?x"
      by (rule tier2_restore_plain)
    moreover have "map to_dquote (tier2_protect (c # d # cs)) = c # ?x"
      using False by (simp add: tier2_protect_plain to_dquote_def)
    ultimately show ?thesis
      using ih by (simp add: tier2_text_phases tier2_quotes_map)
  qed
qed

subsection \<open>Facts about \<^verbatim>\<open>fix_json_structure\<close>\<close>

lemma json_loads_error: "json_loads s = Inl e \<Longrightarrow> e = JSONDecodeError"
  by (auto simp: json_loads_def split: if_splits option.splits)

lemma fix_json_structure_tier1:
  "json_loads (tier1_text m) = Inr v \<Longrightarrow> fix_json_structure m = Inr v"
  by (simp add: fix_json_structure_def)

lemma fix_json_structure_tier2:
  assumes "json_loads (tier1_text m) = Inl e"
  shows "fix_json_structure m = json_loads (tier2_text m)"
proof -
  from assms have "e = JSONDecodeError" by (rule json_loads_error)
  with assms show ?thesis by (simp add: fix_json_structure_def)
qed

lemma no_squote_after_tier2_quotes: "CHR 0x27 \<notin> set (tier2_quotes s)"
  by (auto simp: tier2_quotes_map to_dquote_def)

subsection \<open>An accepted text has no single quote before its first double quote\<close>

text \<open>
  Outside a string the decoder accepts no quote but the one that opens a string, so in
  a text it accepts the first quote character, if there is one, is a double quote.
  Hence Tier 1, which exchanges the two quotes, can only succeed on a well-formed
  double-quoted text if the text has no quote at all.
\<close>

lemma no_squote_first_dquote: "no_squote_first (CHR 0x22 # s)"
  by (simp add: no_squote_first_def)

lemma quote_free_no_squote_first: "quote_free s \<Longrightarrow> no_squote_first s"
  unfolding quote_free_def no_squote_first_def using set_takeWhileD by fastforce

lemma no_squote_first_append_free:
  assumes "quote_free a" "no_squote_first b"
  shows "no_squote_first (a @ b)"
proof -
  have "takeWhile (\<lambda>c. c \<noteq> CHR 0x22) (a @ b) = a @ takeWhile (\<lambda>c. c \<noteq> CHR 0x22) b"
    using assms(1) by (intro takeWhile_append2) (auto simp: quote_free_def)
  with assms show ?thesis by (simp add: no_squote_first_def quote_free_def)
qed

lemma no_squote_first_append:
  assumes "no_squote_first a" "no_squote_first b"
  shows "no_squote_first (a @ b)"
proof (cases "CHR 0x22 \<in> set a")
  case True
  then have "takeWhile (\<lambda>c. c \<noteq> CHR 0x22) (a @ b) = takeWhile (\<lambda>c. c \<noteq> CHR 0x22) a"
    by (intro takeWhile_append1[of "CHR 0x22"]) simp_all
  with assms(1) show ?thesis by (simp add: no_squote_first_def)
next
  case False
  then have "takeWhile (\<lambda>c. c \<noteq> CHR 0x22) a = a"
    by (intro takeWhile_eq_all_conv[THEN iffD2]) auto
  with assms(1) False have "quote_free a" by (simp add: no_squote_first_def quote_free_def)
  then show ?thesis using assms(2) by (rule no_squote_first_append_free)
qed

lemma no_squote_first_append_dquote: "quote_free a \<Longrightarrow> no_squote_first (a @ CHR 0x22 # b)"
  by (simp add: no_squote_first_append_free no_squote_first_dquote)

lemma quote_free_append [simp]: "quote_free (a @ b) \<longleftrightarrow> quote_free a \<and> quote_free b"
  by (auto simp: quote_free_def)

lemma quote_free_Nil [simp]: "quote_free []"
  by (simp add: quote_free_def)

lemma quote_free_Cons [simp]:
  "quote_free (c # s) \<longleftrightarrow> c \<noteq> CHR 0x27 \<and> c \<noteq> CHR 0x22 \<and> quote_free s"
  by (auto simp: quote_free_def)

lemma quote_free_digits: "quote_free (takeWhile is_digit s)"
proof -
  have "\<And>c. c \<in> set (takeWhile is_digit s) \<Longrightarrow> is_digit c" by (rule set_takeWhileD[THEN conjunct2])
  then show ?thesis by (auto simp: quote_free_def is_digit_def)
qed

lemma skip_ws_split: "\<exists>ws. s = ws @ skip_ws s \<and> quote_free ws"
proof (intro exI conjI)
  show "s = takeWhile is_ws s @ skip_ws s" by (simp add: skip_ws_def)
  have "\<And>c. c \<in> set (takeWhile is_ws s) \<Longrightarrow> is_ws c" by (rule set_takeWhileD[THEN conjunct2])
  then show "quote_free (takeWhile is_ws s)" by (auto simp: quote_free_def is_ws_def)
qed

lemma skip_ws_Nil_quote_free: "skip_ws s = [] \<Longrightarrow> quote_free s"
  using skip_ws_split[of s] by auto

lemma unicode_escape_suffix:
  "unicode_escape s = Some (chars, rest) \<Longrightarrow> suffix rest s"
  by (auto simp: unicode_escape_def Let_def suffix_drop intro: suffix_order.trans[OF suffix_drop suffix_drop]
      split: option.splits if_splits)

lemma scanstring_suffix:
  "scanstring s = Some (str, rest) \<Longrightarrow> suffix rest s"
proof (induction s arbitrary: str rest rule: scanstring.induct)
  case 1
  then show ?case by simp
next
  case (2 c cs)
  show ?case
  proof (cases "c = CHR 0x22")
    case True
    with 2(4) show ?thesis by (simp add: suffix_Cons)
  next
    case nq: False
    show ?thesis
    proof (cases "c = CHR 0x5C")
      case True
      with nq 2(4) obtain esc cs' where cs: "cs = esc # cs'"
        by (cases cs) auto
      show ?thesis
      proof (cases "esc = CHR ''u''")
        case u: True
        with nq True cs 2(4) obtain chars r where
          ue: "unicode_escape cs' = Some (chars, r)" and le: "length r \<le> length cs'"
          by (auto split: option.splits if_splits)
        with nq True cs u 2(4) obtain str' where "scanstring r = Some (str', rest)"
          by (auto split: option.splits)
        from 2(1)[OF nq True cs u ue refl le this] unicode_escape_suffix[OF ue] cs
        show ?thesis by (meson suffix_ConsI suffix_order.trans)
      next
        case nu: False
        with nq True cs 2(4) obtain ch where b: "BACKSLASH esc = Some ch"
          by (auto split: option.splits)
        with nq True cs nu 2(4) obtain str' where "scanstring cs' = Some (str', rest)"
          by (auto split: option.splits)
        from 2(2)[OF nq True cs nu b this] cs show ?thesis by (simp add: suffix_ConsI)
      qed
    next
      case nb: False
      with nq 2(4) have nc: "\<not> (of_char c :: nat) < 0x20"
        by (auto split: if_splits)
      with nq nb 2(4) obtain str' where "scanstring cs = Some (str', rest)"
        by (auto split: option.splits)
      from 2(3)[OF nq nb nc this] show ?thesis by (simp add: suffix_ConsI)
    qed
  qed
qed

lemma match_frac_split: "match_frac s = (frac, r) \<Longrightarrow> \<exists>pre. s = pre @ r \<and> quote_free pre"
proof (cases s)
  case Nil
  then show "match_frac s = (frac, r) \<Longrightarrow> ?thesis" by (simp add: match_frac_def)
next
  case (Cons c t)
  assume m: "match_frac s = (frac, r)"
  show ?thesis
  proof (cases "c = CHR ''.'' \<and> takeWhile is_digit t \<noteq> []")
    case True
    with m Cons have "r = dropWhile is_digit t" by (simp add: match_frac_def)
    with Cons True have "s = (c # takeWhile is_digit t) @ r" by simp
    moreover have "quote_free (c # takeWhile is_digit t)"
      using True quote_free_digits by simp
    ultimately show ?thesis by blast
  next
    case False
    with m Cons have "r = s" by (auto simp: match_frac_def)
    then have "s = [] @ r" by simp
    then show ?thesis using quote_free_Nil by blast
  qed
qed

lemma match_exp_split: "match_exp s = (exp, r) \<Longrightarrow> \<exists>pre. s = pre @ r \<and> quote_free pre"
proof -
  assume m: "match_exp s = (exp, r)"
  have triv: "r = s \<Longrightarrow> ?thesis"
  proof -
    assume "r = s"
    then have "s = [] @ r" by simp
    then show ?thesis using quote_free_Nil by blast
  qed
  show ?thesis
  proof (cases s)
    case Nil
    with m show ?thesis by (intro triv) (simp add: match_exp_def)
  next
    case (Cons c t)
    show ?thesis
    proof (cases "c = CHR ''e'' \<or> c = CHR ''E''")
      case False
      with m Cons show ?thesis by (intro triv) (auto simp: match_exp_def)
    next
      case e: True
      obtain eneg r' where sg: "(case t of
            d # r2 \<Rightarrow> if d = CHR ''-'' then (True, r2)
              else if d = CHR ''+'' then (False, r2) else (False, t)
          | [] \<Rightarrow> (False, t)) = (eneg, r')"
        by (cases "case t of
            d # r2 \<Rightarrow> if d = CHR ''-'' then (True, r2)
              else if d = CHR ''+'' then (False, r2) else (False, t)
          | [] \<Rightarrow> (False, t)") auto
      then have sp: "\<exists>sgn. t = sgn @ r' \<and> quote_free sgn"
      proof (cases t)
        case Nil
        with sg have "t = [] @ r'" by simp
        then show ?thesis using quote_free_Nil by blast
      next
        case (Cons d r2)
        show ?thesis
        proof (cases "d = CHR ''-'' \<or> d = CHR ''+''")
          case True
          with sg Cons have "t = [d] @ r'" by auto
          moreover have "quote_free [d]" using True by auto
          ultimately show ?thesis by blast
        next
          case False
          with sg Cons have "t = [] @ r'" by auto
          then show ?thesis using quote_free_Nil by blast
        qed
      qed
      show ?thesis
      proof (cases "takeWhile is_digit r' \<noteq> []")
        case False
        with m Cons e sg show ?thesis by (intro triv) (simp add: match_exp_def)
      next
        case True
        with m Cons e sg have r: "r = dropWhile is_digit r'" by (simp add: match_exp_def)
        from sp obtain sgn where t: "t = sgn @ r'" and q: "quote_free sgn" by blast
        have "s = (c # sgn @ takeWhile is_digit r') @ r"
          using Cons t r by simp
        moreover have "quote_free (c # sgn @ takeWhile is_digit r')"
          using e q quote_free_digits by auto
        ultimately show ?thesis by blast
      qed
    qed
  qed
qed

lemma match_number_split:
  assumes "match_number s = Some (v, r)"
  shows "\<exists>pre. s = pre @ r \<and> quote_free pre"
proof -
  obtain neg s1 where s1: "(case s of c # r \<Rightarrow> if c = CHR ''-'' then (True, r) else (False, s)
      | [] \<Rightarrow> (False, s)) = (neg, s1)"
    by (cases "case s of c # r \<Rightarrow> if c = CHR ''-'' then (True, r) else (False, s)
      | [] \<Rightarrow> (False, s)") auto
  then have p1: "\<exists>a. s = a @ s1 \<and> quote_free a"
  proof (cases s)
    case Nil
    with s1 have "s = [] @ s1" by simp
    then show ?thesis using quote_free_Nil by blast
  next
    case (Cons c t)
    show ?thesis
    proof (cases "c = CHR ''-''")
      case True
      with s1 Cons have "s = [c] @ s1" by simp
      moreover have "quote_free [c]" using True by simp
      ultimately show ?thesis by blast
    next
      case False
      with s1 Cons have "s = [] @ s1" by simp
      then show ?thesis using quote_free_Nil by blast
    qed
  qed
  from assms s1 obtain d t where t: "s1 = d # t"
    by (cases s1) (auto simp: match_number_def)
  from assms s1 t have dg: "is_digit d"
    by (auto simp: match_number_def split: if_splits)
  obtain integer s2 where s2: "(if d = CHR ''0'' then ([d], t)
      else (d # takeWhile is_digit t, dropWhile is_digit t)) = (integer, s2)"
    by (cases "if d = CHR ''0'' then ([d], t)
      else (d # takeWhile is_digit t, dropWhile is_digit t)") auto
  have qd: "quote_free [d]" using dg by (auto simp: is_digit_def)
  have p2: "\<exists>b. s1 = b @ s2 \<and> quote_free b"
  proof (cases "d = CHR ''0''")
    case True
    with s2 t have "s1 = [d] @ s2" by simp
    with qd show ?thesis by blast
  next
    case False
    with s2 t have "s1 = (d # takeWhile is_digit t) @ s2" by auto
    moreover have "quote_free (d # takeWhile is_digit t)"
      using qd quote_free_digits by simp
    ultimately show ?thesis by blast
  qed
  obtain frac s3 where s3: "match_frac s2 = (frac, s3)" by (cases "match_frac s2") auto
  obtain exp s4 where s4: "match_exp s3 = (exp, s4)" by (cases "match_exp s3") auto
  from assms s1 t s2 s3 s4 dg have "r = s4"
    by (auto simp: match_number_def split: if_splits)
  with p1 p2 match_frac_split[OF s3] match_exp_split[OF s4]
  obtain a b c e where "s = a @ s1" "s1 = b @ s2" "s2 = c @ s3" "s3 = e @ r"
    "quote_free a" "quote_free b" "quote_free c" "quote_free e"
    by blast
  then have "s = (a @ b @ c @ e) @ r" "quote_free (a @ b @ c @ e)" by simp_all
  then show ?thesis by blast
qed

lemma quote_free_take_literal:
  assumes "prefix lit s" "quote_free lit" "length lit = n"
  shows "\<exists>pre. s = pre @ drop n s \<and> quote_free pre"
proof -
  from assms(1) obtain r where "s = lit @ r" by (auto simp: prefix_def)
  then have "s = lit @ drop n s" using assms(3) by simp
  with assms(2) show ?thesis by blast
qed

lemma scan_once_literal_or_number:
  assumes "nextchar \<noteq> CHR 0x22" "nextchar \<noteq> CHR ''{''" "nextchar \<noteq> CHR ''[''"
    and "scan_once (nextchar # rest) = Some (v, e)"
  shows "\<exists>pre. nextchar # rest = pre @ e \<and> quote_free pre"
proof -
  define s where "s = nextchar # rest"
  from assms(4) have
    "(if prefix ''null'' s then Some (JNull, drop 4 s)
      else if prefix ''true'' s then Some (JBool True, drop 4 s)
      else if prefix ''false'' s then Some (JBool False, drop 5 s)
      else
        (case match_number s of
           Some (res, end) \<Rightarrow> Some (res, end)
         | None \<Rightarrow>
             if prefix ''NaN'' s then Some (JFloat NaN, drop 3 s)
             else if prefix ''Infinity'' s then Some (JFloat Infinity, drop 8 s)
             else if prefix ''-Infinity'' s then Some (JFloat NegInfinity, drop 9 s)
             else None)) = Some (v, e)"
    unfolding s_def by (simp only: scan_once.simps Let_def assms(1-3) if_False)
  then consider
      (null) "prefix ''null'' s" "e = drop 4 s"
    | (true) "prefix ''true'' s" "e = drop 4 s"
    | (false) "prefix ''false'' s" "e = drop 5 s"
    | (nan) "prefix ''NaN'' s" "e = drop 3 s"
    | (inf) "prefix ''Infinity'' s" "e = drop 8 s"
    | (ninf) "prefix ''-Infinity'' s" "e = drop 9 s"
    | (num) "match_number s = Some (v, e)"
    by (auto split: if_splits option.splits)
  then have "\<exists>pre. s = pre @ e \<and> quote_free pre"
  proof cases
    case null
    show ?thesis unfolding null(2) by (rule quote_free_take_literal[OF null(1)]) simp_all
  next
    case true
    show ?thesis unfolding true(2) by (rule quote_free_take_literal[OF true(1)]) simp_all
  next
    case false
    show ?thesis unfolding false(2) by (rule quote_free_take_literal[OF false(1)]) simp_all
  next
    case nan
    show ?thesis unfolding nan(2) by (rule quote_free_take_literal[OF nan(1)]) simp_all
  next
    case inf
    show ?thesis unfolding inf(2) by (rule quote_free_take_literal[OF inf(1)]) simp_all
  next
    case ninf
    show ?thesis unfolding ninf(2) by (rule quote_free_take_literal[OF ninf(1)]) simp_all
  next
    case num
    then show ?thesis by (rule match_number_split)
  qed
  then show ?thesis unfolding s_def .
qed

lemma scan_once_consumed:
  "(scan_once s = Some (v, e) \<longrightarrow> (\<exists>pre. s = pre @ e \<and> no_squote_first pre))"
  "(JSONArray s1 = Some (vs, e1) \<longrightarrow> (\<exists>pre. s1 = pre @ e1 \<and> no_squote_first pre))"
  "(JSONObject s2 = Some (ps, e2) \<longrightarrow> suffix e2 s2)"
proof (induction s and s1 and s2 arbitrary: v e and vs e1 and ps e2
    rule: scan_once_JSONArray_JSONObject.induct)
  case 1
  show ?case by (simp add: scan_once.simps)
next
  case (2 nextchar rest)
  show ?case
  proof
    assume a: "scan_once (nextchar # rest) = Some (v, e)"
    consider (str) "nextchar = CHR 0x22"
      | (obj) "nextchar \<noteq> CHR 0x22" "nextchar = CHR ''{''"
      | (arr) "nextchar \<noteq> CHR 0x22" "nextchar \<noteq> CHR ''{''" "nextchar = CHR ''[''"
      | (other) "nextchar \<noteq> CHR 0x22" "nextchar \<noteq> CHR ''{''" "nextchar \<noteq> CHR ''[''"
      by blast
    then show "\<exists>pre. nextchar # rest = pre @ e \<and> no_squote_first pre"
    proof cases
      case str
      with a obtain x where "scanstring rest = Some (x, e)"
        by (auto simp: scan_once.simps split: option.splits)
      from scanstring_suffix[OF this] obtain body where "rest = body @ e"
        by (auto simp: suffix_def)
      with str have "nextchar # rest = (CHR 0x22 # body) @ e" by simp
      then show ?thesis using no_squote_first_dquote by blast
    next
      case obj
      with a obtain c after where sk: "skip_ws rest = c # after"
        by (cases "skip_ws rest") (auto simp: scan_once.simps)
      from skip_ws_split[of rest] sk obtain ws where ws: "rest = ws @ c # after" "quote_free ws"
        by auto
      show ?thesis
      proof (cases "c = CHR ''}''")
        case True
        with a obj sk have "e = after" by (simp add: scan_once.simps)
        with ws obj True have "nextchar # rest = (nextchar # ws @ [c]) @ e"
          "quote_free (nextchar # ws @ [c])" by simp_all
        then show ?thesis using quote_free_no_squote_first by blast
      next
        case False
        with a obj sk have q: "c = CHR 0x22"
          by (auto simp: scan_once.simps split: if_splits)
        with a obj sk False obtain pairs where "JSONObject after = Some (pairs, e)"
          by (auto simp: scan_once.simps split: option.splits)
        with 2(1)[OF refl obj sk False q] obtain body where "after = body @ e"
          by (auto simp: suffix_def)
        with ws q have "nextchar # rest = ((nextchar # ws) @ CHR 0x22 # body) @ e" by simp
        moreover have "no_squote_first ((nextchar # ws) @ CHR 0x22 # body)"
          using obj ws(2) by (intro no_squote_first_append_dquote) simp
        ultimately show ?thesis by blast
      qed
    next
      case arr
      with a obtain c after where sk: "skip_ws rest = c # after"
        by (cases "skip_ws rest") (auto simp: scan_once.simps)
      from skip_ws_split[of rest] sk obtain ws where ws: "rest = ws @ c # after" "quote_free ws"
        by auto
      show ?thesis
      proof (cases "c = CHR '']''")
        case True
        with a arr sk have "e = after" by (simp add: scan_once.simps)
        with ws arr True have "nextchar # rest = (nextchar # ws @ [c]) @ e"
          "quote_free (nextchar # ws @ [c])" by simp_all
        then show ?thesis using quote_free_no_squote_first by blast
      next
        case False
        with a arr sk obtain vals where "JSONArray (c # after) = Some (vals, e)"
          by (auto simp: scan_once.simps split: option.splits)
        with 2(2)[OF refl arr sk False] obtain body where
          body: "c # after = body @ e" "no_squote_first body" by blast
        with ws have "nextchar # rest = ((nextchar # ws) @ body) @ e" by simp
        moreover have "no_squote_first ((nextchar # ws) @ body)"
          using arr ws(2) body(2) by (intro no_squote_first_append_free) simp_all
        ultimately show ?thesis by blast
      qed
    next
      case other
      with a have "\<exists>pre. nextchar # rest = pre @ e \<and> quote_free pre"
        by (intro scan_once_literal_or_number)
      then show ?thesis using quote_free_no_squote_first by blast
    qed
  qed
next
  case (3 s)
  show ?case
  proof
    assume a: "JSONArray s = Some (vs, e1)"
    then obtain v en where so: "scan_once s = Some (v, en)"
      by (cases "scan_once s") (auto simp: JSONArray.simps[of s])
    with a have lt: "length en < length s"
      by (auto simp: JSONArray.simps[of s] split: if_splits)
    with a so obtain c after where sk: "skip_ws en = c # after"
      by (cases "skip_ws en") (auto simp: JSONArray.simps[of s])
    from 3(1) so obtain p1 where p1: "s = p1 @ en" "no_squote_first p1" by blast
    from skip_ws_split[of en] sk obtain ws where ws: "en = ws @ c # after" "quote_free ws"
      by auto
    show "\<exists>pre. s = pre @ e1 \<and> no_squote_first pre"
    proof (cases "c = CHR '']''")
      case True
      with a so lt sk have "e1 = after" by (simp add: JSONArray.simps[of s])
      with p1 ws have "s = (p1 @ ws @ [c]) @ e1" by simp
      moreover have "no_squote_first (p1 @ ws @ [c])"
        by (rule no_squote_first_append[OF p1(2) quote_free_no_squote_first])
          (use ws(2) True in simp)
      ultimately show ?thesis by blast
    next
      case False
      with a so lt sk have comma: "c = CHR '',''"
        by (auto simp: JSONArray.simps[of s] split: if_splits)
      with a so lt sk False obtain vals where "JSONArray (skip_ws after) = Some (vals, e1)"
        by (auto simp: JSONArray.simps[of s] split: option.splits)
      with 3(2)[OF so refl lt sk False comma] obtain p2 where
        p2: "skip_ws after = p2 @ e1" "no_squote_first p2" by blast
      from skip_ws_split[of after] obtain ws2 where
        ws2: "after = ws2 @ skip_ws after" "quote_free ws2" by blast
      have "s = (p1 @ (ws @ c # ws2) @ p2) @ e1"
        using p1(1) ws(1) ws2(1) p2(1) by simp
      moreover have "no_squote_first (p1 @ (ws @ c # ws2) @ p2)"
        by (rule no_squote_first_append[OF p1(2) no_squote_first_append_free[OF _ p2(2)]])
          (use ws(2) ws2(2) comma in simp)
      ultimately show ?thesis by blast
    qed
  qed
next
  case (4 s)
  show ?case
  proof
    assume a: "JSONObject s = Some (ps, e2)"
    then obtain key en where ss: "scanstring s = Some (key, en)"
      by (cases "scanstring s") (auto simp: JSONObject.simps[of s])
    with a obtain colon after where sk: "skip_ws en = colon # after"
      by (cases "skip_ws en") (auto simp: JSONObject.simps[of s])
    with a ss have col: "\<not> colon \<noteq> CHR '':''"
      by (auto simp: JSONObject.simps[of s] split: if_splits)
    with a ss sk obtain v en' where so: "scan_once (skip_ws after) = Some (v, en')"
      by (cases "scan_once (skip_ws after)") (auto simp: JSONObject.simps[of s])
    with a ss sk col have lt: "length en' < length s"
      by (auto simp: JSONObject.simps[of s] split: if_splits)
    with a ss sk col so obtain c after' where sk': "skip_ws en' = c # after'"
      by (cases "skip_ws en'") (auto simp: JSONObject.simps[of s])
    have suf_skip: "suffix (skip_ws x) x" for x
      by (simp add: skip_ws_def suffix_dropWhile)
    have "suffix en s" using ss by (rule scanstring_suffix)
    moreover have "suffix after en"
      using suf_skip[of en] sk by (metis suffix_ConsD)
    moreover have "suffix en' (skip_ws after)"
      using 4(1)[OF ss refl sk col] so by (auto simp: suffix_def)
    moreover have "suffix after' en'"
      using suf_skip[of en'] sk' by (metis suffix_ConsD)
    ultimately have s1: "suffix after' s"
      using suf_skip[of after] by (meson suffix_order.trans)
    show "suffix e2 s"
    proof (cases "c = CHR ''}''")
      case True
      with a ss sk col so lt sk' have "e2 = after'" by (simp add: JSONObject.simps[of s])
      with s1 show ?thesis by simp
    next
      case False
      with a ss sk col so lt sk' have comma: "c = CHR '',''"
        by (auto simp: JSONObject.simps[of s] split: if_splits)
      with a ss sk col so lt sk' False obtain q after'' where sk'': "skip_ws after' = q # after''"
        by (cases "skip_ws after'") (auto simp: JSONObject.simps[of s])
      with a ss sk col so lt sk' False comma have q: "q = CHR 0x22"
        by (auto simp: JSONObject.simps[of s] split: if_splits)
      with a ss sk col so lt sk' False comma sk'' obtain pairs where
        "JSONObject after'' = Some (pairs, e2)"
        by (auto simp: JSONObject.simps[of s] split: option.splits)
      with 4(2)[OF ss refl sk col so refl lt sk' False comma sk'' q]
      have "suffix e2 after''" by blast
      moreover have "suffix after'' after'"
        using suf_skip[of after'] sk'' by (metis suffix_ConsD)
      ultimately show ?thesis using s1 by (meson suffix_order.trans)
    qed
  qed
qed

lemma json_loads_no_squote_first:
  assumes "json_loads t = Inr v"
  shows "no_squote_first t"
proof -
  from assms obtain e where so: "scan_once (skip_ws t) = Some (v, e)" and fin: "skip_ws e = []"
    by (auto simp: json_loads_def split: if_splits option.splits)
  from scan_once_consumed(1)[of "skip_ws t" v e] so obtain pre where
    pre: "skip_ws t = pre @ e" "no_squote_first pre" by blast
  from skip_ws_split[of t] obtain ws where ws: "t = ws @ skip_ws t" "quote_free ws" by blast
  have "quote_free e" using fin by (rule skip_ws_Nil_quote_free)
  then have "no_squote_first (pre @ e)"
    by (intro no_squote_first_append[OF pre(2)] quote_free_no_squote_first)
  then have "no_squote_first (ws @ pre @ e)"
    by (rule no_squote_first_append_free[OF ws(2)])
  with ws(1) pre(1) show ?thesis by simp
qed

lemma no_squote_first_both:
  assumes "no_squote_first s" "no_squote_first (map swap_quotes s)"
  shows "quote_free s"
  using assms
proof (induction s)
  case Nil
  show ?case by simp
next
  case (Cons c cs)
  from Cons.prems(1) have c1: "c \<noteq> CHR 0x27"
    by (auto simp: no_squote_first_def split: if_splits)
  from Cons.prems(2) have c2: "c \<noteq> CHR 0x22"
    by (auto simp: no_squote_first_def swap_quotes_def split: if_splits)
  from c1 c2 have "swap_quotes c = c" by (simp add: swap_quotes_def)
  with c1 c2 Cons.prems have "no_squote_first cs" "no_squote_first (map swap_quotes cs)"
    by (simp_all add: no_squote_first_def)
  with Cons.IH c1 c2 show ?case by simp
qed

lemma tier1_rejects_quoted_json:
  assumes "json_loads m = Inr v" "\<not> sublist ''TMP1'' m" "\<not> quote_free m"
  shows "json_loads (tier1_text m) = Inl JSONDecodeError"
proof (cases "json_loads (tier1_text m)")
  case (Inl e)
  then show ?thesis using json_loads_error by blast
next
  case (Inr v')
  then have "no_squote_first (map swap_quotes m)"
    using json_loads_no_squote_first tier1_text_swap[OF assms(2)] by metis
  moreover have "no_squote_first m" using assms(1) by (rule json_loads_no_squote_first)
  ultimately have "quote_free m" by (rule no_squote_first_both[rotated])
  with assms(3) show ?thesis by simp
qed

lemma tier1_text_quote_free:
  assumes "quote_free m" "\<not> sublist ''TMP1'' m"
  shows "tier1_text m = m"
proof -
  have "map swap_quotes m = map (\<lambda>c. c) m"
    using assms(1) by (intro map_cong) (auto simp: swap_quotes_def quote_free_def)
  with tier1_text_swap[OF assms(2)] show ?thesis by simp
qed

subsection \<open>The claims\<close>

lemmas json_eval =
  json_loads_def scan_once.simps JSONArray.simps JSONObject.simps skip_ws_def is_ws_def
  is_digit_def match_number_def match_frac_def match_exp_def number_value_def digits_val_def
  digit_val_def dict_def BACKSLASH_def Let_def

lemma scenario1_tier1_text:
  \<open>tier1_text ''{'Steps': ['Open file', 'Read it'], 'Number of steps': 2, 'How long did this take?': "5 minutes", 'Tools': [], 'Number of tools': 0}''
    = ''{"Steps": ["Open file", "Read it"], "Number of steps": 2, "How long did this take?": '5 minutes', "Tools": [], "Number of tools": 0}''\<close>
  by (simp add: tier1_text_def)

lemma scenario1_tier2_text:
  \<open>tier2_text ''{'Steps': ['Open file', 'Read it'], 'Number of steps': 2, 'How long did this take?': "5 minutes", 'Tools': [], 'Number of tools': 0}''
    = ''{"Steps": ["Open file", "Read it"], "Number of steps": 2, "How long did this take?": "5 minutes", "Tools": [], "Number of tools": 0}''\<close>
  by (simp add: tier2_text_def)

lemma scenario1_tier1_rejected:
  \<open>json_loads ''{"Steps": ["Open file", "Read it"], "Number of steps": 2, "How long did this take?": '5 minutes', "Tools": [], "Number of tools": 0}''
    = Inl JSONDecodeError\<close>
  by (simp add: json_eval)

lemma scenario1_tier2_parsed:
  \<open>json_loads ''{"Steps": ["Open file", "Read it"], "Number of steps": 2, "How long did this take?": "5 minutes", "Tools": [], "Number of tools": 0}''
    = Inr (JObject [(''Steps'', JArray [JString ''Open file'', JString ''Read it'']),
        (''Number of steps'', JInt 2), (''How long did this take?'', JString ''5 minutes''),
        (''Tools'', JArray []), (''Number of tools'', JInt 0)])\<close>
  by (simp add: json_eval)

text \<open>
  Claim C1, as stated, fails: on the scenario's input the Tier 1 text still holds the
  value \<open>'5 minutes'\<close> in single quotes, and the decoder rejects it.
\<close>

theorem scenario1_tier1_does_not_parse:
  \<open>json_loads (tier1_text ''{'Steps': ['Open file', 'Read it'], 'Number of steps': 2, 'How long did this take?': "5 minutes", 'Tools': [], 'Number of tools': 0}'')
    = Inl JSONDecodeError\<close>
  by (simp only: scenario1_tier1_text scenario1_tier1_rejected)

text \<open>
  Claim C1, amended. On the scenario's input Tier 1 fails to parse, the result of
  \<^verbatim>\<open>fix_json_structure\<close> is the parse of the Tier 2 text, and
  \<^verbatim>\<open>preprocess_annotator_metadata\<close> returns the record
  \<open>{metadata_steps: ["Open file", "Read it"], metadata_num_steps: 2,
  metadata_time_taken: "5 minutes", metadata_tools: [], metadata_num_tools: 0}\<close>.
\<close>

theorem scenario1_record:
  \<open>json_loads (tier1_text ''{'Steps': ['Open file', 'Read it'], 'Number of steps': 2, 'How long did this take?': "5 minutes", 'Tools': [], 'Number of tools': 0}'')
      = Inl JSONDecodeError
   \<and> fix_json_structure ''{'Steps': ['Open file', 'Read it'], 'Number of steps': 2, 'How long did this take?': "5 minutes", 'Tools': [], 'Number of tools': 0}''
      = json_loads (tier2_text ''{'Steps': ['Open file', 'Read it'], 'Number of steps': 2, 'How long did this take?': "5 minutes", 'Tools': [], 'Number of tools': 0}'')
   \<and> json_loads (tier2_text ''{'Steps': ['Open file', 'Read it'], 'Number of steps': 2, 'How long did this take?': "5 minutes", 'Tools': [], 'Number of tools': 0}'')
      = Inr (JObject [(''Steps'', JArray [JString ''Open file'', JString ''Read it'']),
          (''Number of steps'', JInt 2), (''How long did this take?'', JString ''5 minutes''),
          (''Tools'', JArray []), (''Number of tools'', JInt 0)])
   \<and> preprocess_annotator_metadata ''{'Steps': ['Open file', 'Read it'], 'Number of steps': 2, 'How long did this take?': "5 minutes", 'Tools': [], 'Number of tools': 0}''
      = Inr [(''metadata_steps'', JArray [JString ''Open file'', JString ''Read it'']),
             (''metadata_num_steps'', JInt 2),
             (''metadata_time_taken'', JString ''5 minutes''),
             (''metadata_tools'', JArray []),
             (''metadata_num_tools'', JInt 0)]\<close>
  by (simp add: preprocess_annotator_metadata_def fix_json_structure_def
      scenario1_tier1_text scenario1_tier1_rejected scenario1_tier2_text scenario1_tier2_parsed
      del: str_replace.simps)

text \<open>
  Claim C2, as stated, fails: for the input \<open>{"a": 1}\<close> the text handed to the decoder
  is the input itself, with its double quotes and without any single quote; the two
  quote replacements are not an exchange.
\<close>

theorem tier2_text_keeps_double_quotes:
  \<open>tier2_text ''{"a": 1}'' = ''{"a": 1}'' \<and> CHR 0x27 \<notin> set (tier2_text ''{"a": 1}'')
    \<and> tier2_quotes ''{"a": 1}'' \<noteq> map swap_quotes ''{"a": 1}''\<close>
  by (simp add: tier2_text_def tier2_quotes_def swap_quotes_def)

text \<open>
  Claim C2, amended. The Tier 2 text is computed by protecting the three patterns,
  replacing every double quote by a single quote and then every single quote (those
  just produced included) by a double quote, and restoring the three patterns; so
  in the text between the second and the third phase every quote of either kind is
  a double quote and no single quote is left. The Tier 2 text is parsed only when
  the parse of the Tier 1 text fails, and its outcome is then the result.
\<close>

theorem tier2_text_all_quotes_double:
  "tier2_text m = tier2_restore (tier2_quotes (tier2_protect m))
   \<and> tier2_quotes (tier2_protect m) = map to_dquote (tier2_protect m)
   \<and> CHR 0x27 \<notin> set (tier2_quotes (tier2_protect m))
   \<and> (\<forall>v. json_loads (tier1_text m) = Inr v \<longrightarrow> fix_json_structure m = Inr v)
   \<and> (\<forall>e. json_loads (tier1_text m) = Inl e \<longrightarrow>
         fix_json_structure m = json_loads (tier2_text m))"
  using tier2_text_phases tier2_quotes_map no_squote_after_tier2_quotes
    fix_json_structure_tier1 fix_json_structure_tier2 by blast

lemma scenario3_tier1: \<open>json_loads (tier1_text ''{"a": "it's"}'') = Inl JSONDecodeError\<close>
  by (simp add: tier1_text_def json_eval)

lemma scenario3_tier2: \<open>json_loads (tier2_text ''{"a": "it's"}'') = Inr (JObject [(''a'', JString ''it's'')])\<close>
  by (simp add: tier2_text_def json_eval)

lemma scenario4_tier1: \<open>json_loads (tier1_text ''{'a': 1}'') = Inr (JObject [(''a'', JInt 1)])\<close>
  by (simp add: tier1_text_def json_eval)

theorem tier2_text_all_quotes_double_witness:
  \<open>json_loads (tier1_text ''{"a": "it's"}'') = Inl JSONDecodeError
   \<and> fix_json_structure ''{"a": "it's"}'' = Inr (JObject [(''a'', JString ''it's'')])
   \<and> json_loads (tier1_text ''{'a': 1}'') = Inr (JObject [(''a'', JInt 1)])
   \<and> fix_json_structure ''{'a': 1}'' = Inr (JObject [(''a'', JInt 1)])\<close>
  using tier2_text_all_quotes_double[of \<open>''{"a": "it's"}''\<close>]
    tier2_text_all_quotes_double[of \<open>''{'a': 1}''\<close>]
    scenario3_tier1 scenario3_tier2 scenario4_tier1
  by (simp del: str_replace.simps)

lemma scenario5_tier1: \<open>json_loads (tier1_text ''{"a": "it's TMP1"}'') = Inl JSONDecodeError\<close>
  by (simp add: tier1_text_def json_eval)

lemma scenario5_tier2: \<open>json_loads (tier2_text ''{"a": "it's TMP1"}'') = Inr (JObject [(''a'', JString ''it's 's'')])\<close>
  by (simp add: tier2_text_def json_eval)

lemma scenario5_original: \<open>json_loads ''{"a": "it's TMP1"}'' = Inr (JObject [(''a'', JString ''it's TMP1'')])\<close>
  by (simp add: json_eval)

text \<open>
  Claim C3, as stated, fails: \<open>{"a": "it's TMP1"}\<close> is well-formed, its only single
  quote is the one of \<open>'s\<close>, Tier 1 fails on it, and the value returned holds
  \<open>it's 's\<close> where the original holds \<open>it's TMP1\<close>.
\<close>

theorem fix_json_structure_sentinel_collision:
  \<open>quotes_in_contractions ''{"a": "it's TMP1"}''
   \<and> json_loads ''{"a": "it's TMP1"}'' = Inr (JObject [(''a'', JString ''it's TMP1'')])
   \<and> json_loads (tier1_text ''{"a": "it's TMP1"}'') = Inl JSONDecodeError
   \<and> fix_json_structure ''{"a": "it's TMP1"}'' = Inr (JObject [(''a'', JString ''it's 's'')])\<close>
  using fix_json_structure_tier2[OF scenario5_tier1] scenario5_tier1 scenario5_tier2 scenario5_original
  by (simp del: str_replace.simps)

text \<open>
  Claim C3, amended. For every well-formed metadata text in which every single quote
  is followed by \<open>s\<close>, \<open>t\<close> or \<open>(\<close> and which contains none of the texts \<open>TMP1\<close>,
  \<open>TMP2\<close>, \<open>TMP3\<close>, \<^verbatim>\<open>fix_json_structure\<close> returns the value the input denotes;
  the Tier 2 text is the input itself, byte for byte; and Tier 1 fails to parse
  whenever the input has a quote character.
\<close>

theorem fix_json_structure_contractions:
  assumes "quotes_in_contractions m" and "no_sentinel m" and "json_loads m = Inr v"
  shows "fix_json_structure m = Inr v
    \<and> tier2_text m = m
    \<and> (CHR 0x22 \<in> set m \<or> CHR 0x27 \<in> set m \<longrightarrow>
         json_loads (tier1_text m) = Inl JSONDecodeError)"
proof -
  have ns: "\<not> sublist ''TMP1'' m" using assms(2) by (simp add: no_sentinel_def)
  have t2: "tier2_text m = m" using assms(1,2) by (rule tier2_text_identity)
  have t1: "json_loads (tier1_text m) = Inl JSONDecodeError" if "\<not> quote_free m"
    using assms(3) ns that by (rule tier1_rejects_quoted_json)
  have "fix_json_structure m = Inr v"
  proof (cases "quote_free m")
    case True
    then have "tier1_text m = m" using ns by (rule tier1_text_quote_free)
    with assms(3) show ?thesis by (simp add: fix_json_structure_def)
  next
    case False
    then have "fix_json_structure m = json_loads (tier2_text m)"
      using t1 fix_json_structure_tier2 by blast
    with t2 assms(3) show ?thesis by simp
  qed
  moreover have "CHR 0x22 \<in> set m \<or> CHR 0x27 \<in> set m \<longrightarrow>
      json_loads (tier1_text m) = Inl JSONDecodeError"
    using t1 by (auto simp: quote_free_def)
  ultimately show ?thesis using t2 by blast
qed

lemma scenario3_hyps:
  \<open>quotes_in_contractions ''{"a": "it's"}'' \<and> no_sentinel ''{"a": "it's"}''
    \<and> json_loads ''{"a": "it's"}'' = Inr (JObject [(''a'', JString ''it's'')])\<close>
  by (simp add: no_sentinel_def sublist_code json_eval)

theorem fix_json_structure_contractions_witness:
  \<open>quotes_in_contractions ''{"a": "it's"}'' \<and> no_sentinel ''{"a": "it's"}''
   \<and> json_loads ''{"a": "it's"}'' = Inr (JObject [(''a'', JString ''it's'')])
   \<and> fix_json_structure ''{"a": "it's"}'' = Inr (JObject [(''a'', JString ''it's'')])
   \<and> tier2_text ''{"a": "it's"}'' = ''{"a": "it's"}''
   \<and> json_loads (tier1_text ''{"a": "it's"}'') = Inl JSONDecodeError\<close>
proof -
  have \<open>CHR 0x22 \<in> set ''{"a": "it's"}''\<close> by simp
  with fix_json_structure_contractions[of \<open>''{"a": "it's"}''\<close> \<open>JObject [(''a'', JString ''it's'')]\<close>]
    scenario3_hyps
  show ?thesis by blast
qed

text \<open>
  Claim C5. When the decoder rejects both the Tier 1 and the Tier 2 text,
  \<^verbatim>\<open>fix_json_structure\<close> ends with \<^verbatim>\<open>JSONDecodeError\<close>, and so does
  \<^verbatim>\<open>preprocess_annotator_metadata\<close>: nothing is returned in its place.
\<close>

theorem fix_json_structure_both_tiers_fail:
  assumes "json_loads (tier1_text m) = Inl e1" and "json_loads (tier2_text m) = Inl e2"
  shows "fix_json_structure m = Inl JSONDecodeError
    \<and> preprocess_annotator_metadata m = Inl JSONDecodeError"
proof -
  have "fix_json_structure m = json_loads (tier2_text m)"
    using assms(1) by (rule fix_json_structure_tier2)
  moreover have "e2 = JSONDecodeError" using assms(2) by (rule json_loads_error)
  ultimately have "fix_json_structure m = Inl JSONDecodeError" using assms(2) by simp
  then show ?thesis by (simp add: preprocess_annotator_metadata_def)
qed

lemma scenario6_tiers:
  \<open>json_loads (tier1_text ''{'Steps': [}'') = Inl JSONDecodeError
    \<and> json_loads (tier2_text ''{'Steps': [}'') = Inl JSONDecodeError\<close>
  by (simp add: tier1_text_def tier2_text_def json_eval)

theorem fix_json_structure_both_tiers_fail_witness:
  \<open>json_loads (tier1_text ''{'Steps': [}'') = Inl JSONDecodeError
   \<and> json_loads (tier2_text ''{'Steps': [}'') = Inl JSONDecodeError
   \<and> fix_json_structure ''{'Steps': [}'' = Inl JSONDecodeError
   \<and> preprocess_annotator_metadata ''{'Steps': [}'' = Inl JSONDecodeError\<close>
  using fix_json_structure_both_tiers_fail[of \<open>''{'Steps': [}''\<close> JSONDecodeError JSONDecodeError]
    scenario6_tiers
  by blast

lemma scenario2_tier1:
  \<open>json_loads (tier1_text ''{"Steps": ["Ask the user what's needed"], "Number of steps": 1, "How long did this take?": "1 minute", "Tools": [], "Number of tools": "none"}'')
    = Inl JSONDecodeError\<close>
  by (simp add: tier1_text_def json_eval)

lemma scenario2_tier2_text:
  \<open>tier2_text ''{"Steps": ["Ask the user what's needed"], "Number of steps": 1, "How long did this take?": "1 minute", "Tools": [], "Number of tools": "none"}''
    = ''{"Steps": ["Ask the user what's needed"], "Number of steps": 1, "How long did this take?": "1 minute", "Tools": [], "Number of tools": "none"}''\<close>
  by (simp add: tier2_text_def)

lemma scenario2_parsed:
  \<open>json_loads ''{"Steps": ["Ask the user what's needed"], "Number of steps": 1, "How long did this take?": "1 minute", "Tools": [], "Number of tools": "none"}''
    = Inr (JObject [(''Steps'', JArray [JString ''Ask the user what's needed'']),
        (''Number of steps'', JInt 1), (''How long did this take?'', JString ''1 minute''),
        (''Tools'', JArray []), (''Number of tools'', JString ''none'')])\<close>
  by (simp add: json_eval)

lemma scenario2_preprocess:
  \<open>preprocess_annotator_metadata ''{"Steps": ["Ask the user what's needed"], "Number of steps": 1, "How long did this take?": "1 minute", "Tools": [], "Number of tools": "none"}''
    = Inr [(''metadata_steps'', JArray [JString ''Ask the user what's needed'']),
           (''metadata_num_steps'', JInt 1),
           (''metadata_time_taken'', JString ''1 minute''),
           (''metadata_tools'', JArray []),
           (''metadata_num_tools'', JString ''none'')]\<close>
  by (simp add: preprocess_annotator_metadata_def fix_json_structure_def
      scenario2_tier1 scenario2_tier2_text scenario2_parsed del: str_replace.simps)

lemmas coerce_eval =
  coerce_num_tools_def astype_Int64_def floatify_def c_str_def to_double_def is_space_def
  is_digit_def match_exp_def ascii_lower_def inf_words_def Let_def

lemma coerce_none_text: "coerce_num_tools [JString ''none''] = Some (Inr [None])"
  by (simp add: coerce_eval)

text \<open>A number needs a digit: the reader rejects every text without one.\<close>

lemma takeWhile_is_digit_Nil:
  assumes "\<And>c. c \<in> set x \<Longrightarrow> \<not> is_digit c"
  shows "takeWhile is_digit x = []"
  using assms by (cases x) simp_all

lemma to_double_needs_digit:
  assumes "list_all (\<lambda>c. \<not> is_digit c) s"
  shows "\<not> to_double s"
proof -
  have nd: "\<not> is_digit c" if "c \<in> set s" for c
    using assms that by (simp add: list_all_iff)
  define p0 where "p0 = dropWhile is_space s"
  define p1 where "p1 = (case p0 of
      c # r \<Rightarrow> if c = CHR ''-'' \<or> c = CHR ''+'' then r else p0 | [] \<Rightarrow> p0)"
  define p2 where "p2 = dropWhile is_digit p1"
  have s0: "set p0 \<subseteq> set s" unfolding p0_def by (auto dest: set_dropWhileD)
  have s1: "set p1 \<subseteq> set p0" unfolding p1_def by (auto split: list.splits)
  have s2: "set p2 \<subseteq> set p1" unfolding p2_def by (auto dest: set_dropWhileD)
  have ds: "takeWhile is_digit p1 = []"
    by (rule takeWhile_is_digit_Nil) (use nd s0 s1 in blast)
  have fs: "takeWhile is_digit (tl p2) = []"
  proof (rule takeWhile_is_digit_Nil)
    fix c assume "c \<in> set (tl p2)"
    then have "c \<in> set p2" by (cases p2) simp_all
    with nd s0 s1 s2 show "\<not> is_digit c" by blast
  qed
  have "fst (case p2 of
      c # r \<Rightarrow> if c = CHR ''.'' then (takeWhile is_digit r, dropWhile is_digit r) else ([], p2)
    | [] \<Rightarrow> ([], p2)) = []"
    using fs by (cases p2) simp_all
  with ds show ?thesis
    unfolding to_double_def Let_def p0_def[symmetric] p1_def[symmetric] p2_def[symmetric]
    by (simp add: case_prod_beta)
qed

lemma non_numeric_text_not_floatify:
  assumes "non_numeric_text s"
  shows "\<not> floatify s"
proof -
  from assms have "list_all (\<lambda>c. \<not> is_digit c) (c_str s)"
    unfolding non_numeric_text_def c_str_def list_all_iff by (blast dest: set_takeWhileD)
  then have "\<not> to_double (c_str s)" by (rule to_double_needs_digit)
  with assms show ?thesis by (simp add: non_numeric_text_def floatify_def)
qed

lemma to_numeric_coerce_null_text_or_int:
  assumes "null_text_or_int c"
  shows "to_numeric_coerce c = Some (case int_or_null c of Some n \<Rightarrow> Whole n | None \<Rightarrow> Missing)"
  using assms non_numeric_text_not_floatify by (cases c) auto


lemma those_map_Some:
  assumes "\<And>x. x \<in> set xs \<Longrightarrow> f x = Some (g x)"
  shows "those (map f xs) = Some (map g xs)"
  using assms by (induction xs) simp_all

lemma coerce_num_tools_plain:
  assumes "column \<noteq> []" "list_all null_text_or_int column"
  shows "coerce_num_tools column = Some (Inr (map int_or_null column))"
proof -
  let ?g = "\<lambda>c. case int_or_null c of Some n \<Rightarrow> Whole n | None \<Rightarrow> Missing"
  have "those (map to_numeric_coerce column) = Some (map ?g column)"
    by (rule those_map_Some)
      (use assms(2) to_numeric_coerce_null_text_or_int in \<open>simp add: list_all_iff\<close>)
  moreover have "NotWhole \<notin> set (map ?g column)"
    by (auto split: option.splits)
  moreover have "map (\<lambda>c. case c of Whole n \<Rightarrow> Some n | _ \<Rightarrow> None) (map ?g column)
      = map int_or_null column"
    by (auto split: option.splits)
  ultimately show ?thesis using assms(1) by (simp add: coerce_num_tools_def astype_Int64_def)
qed

lemma coerce_none_in_column:
  assumes "list_all null_text_or_int column" "i < length column" "column ! i = JString ''none''"
  shows "coerce_num_tools column = Some (Inr (map int_or_null column))
    \<and> map int_or_null column ! i = None"
proof -
  from assms(2) have "column \<noteq> []" by auto
  then have "coerce_num_tools column = Some (Inr (map int_or_null column))"
    using assms(1) by (rule coerce_num_tools_plain)
  moreover from assms(2,3) have "map int_or_null column ! i = None" by simp
  ultimately show ?thesis by simp
qed

text \<open>
  Claim C4. On the scenario's input Tier 1 fails to parse and Tier 2 parses; the
  record returned has the step \<open>Ask the user what's needed\<close> with its apostrophe and
  the tool count \<open>"none"\<close>; and the coercion of the column that holds this tool count
  turns it into the missing value: in the table of this one row, and in row \<open>i\<close> of
  every table whose other rows have a tool count that is \<^verbatim>\<open>null\<close>, a text that is not
  a number, or an integer of magnitude up to \<open>2 ^ 53\<close>.
\<close>

theorem scenario2_contraction_and_none:
  \<open>json_loads (tier1_text ''{"Steps": ["Ask the user what's needed"], "Number of steps": 1, "How long did this take?": "1 minute", "Tools": [], "Number of tools": "none"}'')
      = Inl JSONDecodeError
   \<and> json_loads (tier2_text ''{"Steps": ["Ask the user what's needed"], "Number of steps": 1, "How long did this take?": "1 minute", "Tools": [], "Number of tools": "none"}'')
      = Inr (JObject [(''Steps'', JArray [JString ''Ask the user what's needed'']),
          (''Number of steps'', JInt 1), (''How long did this take?'', JString ''1 minute''),
          (''Tools'', JArray []), (''Number of tools'', JString ''none'')])
   \<and> preprocess_annotator_metadata ''{"Steps": ["Ask the user what's needed"], "Number of steps": 1, "How long did this take?": "1 minute", "Tools": [], "Number of tools": "none"}''
      = Inr [(''metadata_steps'', JArray [JString ''Ask the user what's needed'']),
             (''metadata_num_steps'', JInt 1),
             (''metadata_time_taken'', JString ''1 minute''),
             (''metadata_tools'', JArray []),
             (''metadata_num_tools'', JString ''none'')]
   \<and> sublist ''what's needed'' ''Ask the user what's needed''
   \<and> coerce_num_tools [JString ''none''] = Some (Inr [None])
   \<and> (list_all null_text_or_int column \<and> i < length column \<and> column ! i = JString ''none'' \<longrightarrow>
        coerce_num_tools column = Some (Inr (map int_or_null column))
        \<and> map int_or_null column ! i = None)\<close>
  using coerce_none_in_column[of column i]
  by (simp add: scenario2_tier1 scenario2_tier2_text scenario2_parsed scenario2_preprocess
      coerce_none_text sublist_code del: str_replace.simps)

lemma witness_column_none:
  "list_all null_text_or_int [JInt 2, JString ''none'', JNull]"
  by (simp add: non_numeric_text_def c_str_def is_digit_def ascii_lower_def inf_words_def)

theorem scenario2_contraction_and_none_witness:
  "list_all null_text_or_int [JInt 2, JString ''none'', JNull]
   \<and> (1::nat) < length [JInt 2, JString ''none'', JNull]
   \<and> [JInt 2, JString ''none'', JNull] ! 1 = JString ''none''
   \<and> coerce_num_tools [JInt 2, JString ''none'', JNull] = Some (Inr [Some 2, None, None])"
  using scenario2_contraction_and_none[of "[JInt 2, JString ''none'', JNull]" 1]
    witness_column_none
  by simp

text \<open>
  Claim C6, as stated, fails: \<open>[]\<close> parses, to an empty list; none of the five keys
  is in it, and the lookup raises \<^verbatim>\<open>TypeError\<close>, not \<^verbatim>\<open>KeyError\<close>.
\<close>

theorem preprocess_annotator_metadata_on_list:
  \<open>fix_json_structure ''[]'' = Inr (JArray [])
   \<and> preprocess_annotator_metadata ''[]'' = Inl TypeError\<close>
  by (simp add: preprocess_annotator_metadata_def fix_json_structure_def tier1_text_def json_eval)

text \<open>
  Claim C6, amended. Whenever \<^verbatim>\<open>fix_json_structure\<close> succeeds with an object,
  \<^verbatim>\<open>preprocess_annotator_metadata\<close> returns the five fields \<open>metadata_steps\<close>,
  \<open>metadata_num_steps\<close>, \<open>metadata_time_taken\<close>, \<open>metadata_tools\<close>,
  \<open>metadata_num_tools\<close> holding the values of the five keys if all five are present,
  and ends with \<^verbatim>\<open>KeyError\<close> for an absent key otherwise; when it succeeds with a
  value that is not an object, the operation ends with \<^verbatim>\<open>TypeError\<close>.
\<close>

theorem preprocess_annotator_metadata_keys:
  assumes "fix_json_structure m = Inr v"
  shows "case v of
      JObject d \<Rightarrow>
        (if \<forall>k \<in> set [''Steps'', ''Number of steps'', ''How long did this take?'', ''Tools'',
              ''Number of tools'']. map_of d k \<noteq> None
         then preprocess_annotator_metadata m =
           Inr [(''metadata_steps'', lookup_json d ''Steps''),
                (''metadata_num_steps'', lookup_json d ''Number of steps''),
                (''metadata_time_taken'', lookup_json d ''How long did this take?''),
                (''metadata_tools'', lookup_json d ''Tools''),
                (''metadata_num_tools'', lookup_json d ''Number of tools'')]
         else \<exists>k \<in> set [''Steps'', ''Number of steps'', ''How long did this take?'', ''Tools'',
              ''Number of tools'']. map_of d k = None
                \<and> preprocess_annotator_metadata m = Inl (KeyError k))
    | _ \<Rightarrow> preprocess_annotator_metadata m = Inl TypeError"
proof (cases v)
  case (JObject d)
  show ?thesis
  proof (cases "map_of d ''Steps''")
    case None
    with assms JObject show ?thesis by (simp add: preprocess_annotator_metadata_def)
  next
    case s: (Some steps)
    show ?thesis
    proof (cases "map_of d ''Number of steps''")
      case None
      with assms JObject s show ?thesis by (simp add: preprocess_annotator_metadata_def)
    next
      case n: (Some num_steps)
      show ?thesis
      proof (cases "map_of d ''How long did this take?''")
        case None
        with assms JObject s n show ?thesis by (simp add: preprocess_annotator_metadata_def)
      next
        case h: (Some time_taken)
        show ?thesis
        proof (cases "map_of d ''Tools''")
          case None
          with assms JObject s n h show ?thesis by (simp add: preprocess_annotator_metadata_def)
        next
          case t: (Some tools)
          show ?thesis
          proof (cases "map_of d ''Number of tools''")
            case None
            with assms JObject s n h t show ?thesis by (simp add: preprocess_annotator_metadata_def)
          next
            case (Some num_tools)
            with assms JObject s n h t show ?thesis
              by (simp add: preprocess_annotator_metadata_def lookup_json_def)
          qed
        qed
      qed
    qed
  qed
qed (use assms in \<open>simp_all add: preprocess_annotator_metadata_def\<close>)

lemma scenario7_fix:
  \<open>fix_json_structure ''{'Steps': [], 'Tools': []}'' = Inr (JObject [(''Steps'', JArray []), (''Tools'', JArray [])])\<close>
  by (simp add: fix_json_structure_def tier1_text_def json_eval)

lemma scenario1_fix:
  \<open>fix_json_structure ''{'Steps': ['Open file', 'Read it'], 'Number of steps': 2, 'How long did this take?': "5 minutes", 'Tools': [], 'Number of tools': 0}''
    = Inr (JObject [(''Steps'', JArray [JString ''Open file'', JString ''Read it'']),
        (''Number of steps'', JInt 2), (''How long did this take?'', JString ''5 minutes''),
        (''Tools'', JArray []), (''Number of tools'', JInt 0)])\<close>
  by (simp add: fix_json_structure_def scenario1_tier1_text scenario1_tier1_rejected
      scenario1_tier2_text scenario1_tier2_parsed del: str_replace.simps)

theorem preprocess_annotator_metadata_keys_witness:
  \<open>fix_json_structure ''{'Steps': [], 'Tools': []}''
      = Inr (JObject [(''Steps'', JArray []), (''Tools'', JArray [])])
   \<and> preprocess_annotator_metadata ''{'Steps': [], 'Tools': []}''
      = Inl (KeyError ''Number of steps'')
   \<and> preprocess_annotator_metadata ''{'Steps': ['Open file', 'Read it'], 'Number of steps': 2, 'How long did this take?': "5 minutes", 'Tools': [], 'Number of tools': 0}''
      = Inr [(''metadata_steps'', JArray [JString ''Open file'', JString ''Read it'']),
             (''metadata_num_steps'', JInt 2),
             (''metadata_time_taken'', JString ''5 minutes''),
             (''metadata_tools'', JArray []),
             (''metadata_num_tools'', JInt 0)]\<close>
proof -
  have "\<exists>k \<in> set [''Steps'', ''Number of steps'', ''How long did this take?'', ''Tools'',
      ''Number of tools'']. map_of [(''Steps'', JArray []), (''Tools'', JArray [])] k = None
        \<and> preprocess_annotator_metadata ''{'Steps': [], 'Tools': []}'' = Inl (KeyError k)"
    using preprocess_annotator_metadata_keys[OF scenario7_fix] by simp
  then have 1: "preprocess_annotator_metadata ''{'Steps': [], 'Tools': []}''
      = Inl (KeyError ''Number of steps'')"
    by (simp add: preprocess_annotator_metadata_def scenario7_fix del: str_replace.simps)
  have 2: \<open>preprocess_annotator_metadata ''{'Steps': ['Open file', 'Read it'], 'Number of steps': 2, 'How long did this take?': "5 minutes", 'Tools': [], 'Number of tools': 0}''
      = Inr [(''metadata_steps'', JArray [JString ''Open file'', JString ''Read it'']),
             (''metadata_num_steps'', JInt 2),
             (''metadata_time_taken'', JString ''5 minutes''),
             (''metadata_tools'', JArray []),
             (''metadata_num_tools'', JInt 0)]\<close>
    using preprocess_annotator_metadata_keys[OF scenario1_fix]
    by (simp add: lookup_json_def del: str_replace.simps)
  from 1 2 scenario7_fix show ?thesis by blast
qed

text \<open>
  Claim C7. With no matching file, \<^verbatim>\<open>load_datasets_from_filesystem\<close> raises
  \<^verbatim>\<open>ValueError\<close>, and \<^verbatim>\<open>main\<close> ends with it before any call to the database
  collaborators: no connection string is asked for, no engine or connection made.
  This holds whatever the processing of a file does.
\<close>

theorem main_without_datasets:
  "load_datasets_from_filesystem process [] =
     ([], Inl (ValueError ''There are no datasets available in the resources path''))
   \<and> main process [] =
     ([], Inl (ValueError ''There are no datasets available in the resources path''))
   \<and> GetPostgresConnString \<notin> set (fst (main process []))
   \<and> CreateEngine \<notin> set (fst (main process []))
   \<and> Connect \<notin> set (fst (main process []))"
  by (simp add: main_def load_datasets_from_filesystem_def)

lemma main_connects_after_load:
  assumes "load_datasets_from_filesystem process file_list = (evs, Inr dataframes)"
  shows "GetPostgresConnString \<in> set (fst (main process file_list))"
  using assms by (simp add: main_def)

lemma apply_rows_Inr:
  assumes "\<And>x. x \<in> set xs \<Longrightarrow> f x = Inr (g x)"
  shows "apply_rows f xs = Inr (map g xs)"
  using assms by (induction xs) simp_all

lemma apply_rows_Inl:
  assumes "x \<in> set xs" "f x = Inl e" "\<And>y e'. f y = Inl e' \<Longrightarrow> e' = e"
  shows "apply_rows f xs = Inl e"
  using assms(1)
proof (induction xs)
  case Nil
  then show ?case by simp
next
  case (Cons y ys)
  show ?case
  proof (cases "f y")
    case (Inl e')
    with assms(3) show ?thesis by simp
  next
    case (Inr v)
    with Cons assms(2) have "x \<in> set ys" by auto
    with Cons.IH have "apply_rows f ys = Inl e" by simp
    with Inr show ?thesis by simp
  qed
qed

lemma file_path_column_text_or_missing:
  assumes "file_name \<noteq> []" "list_all text_or_missing file_name"
  shows "file_path_column file_name = Inr (map bucket_path file_name)"
proof -
  have "(if c = JNull then Inr JNull else str_add ''damg7374-a1-store/'' c) = Inr (bucket_path c)"
    if "c \<in> set file_name" for c
  proof -
    from that assms(2) have "text_or_missing c" by (simp add: list_all_iff)
    then show ?thesis by (cases c) simp_all
  qed
  then have "apply_rows (\<lambda>c. if c = JNull then Inr JNull else str_add ''damg7374-a1-store/'' c)
      file_name = Inr (map bucket_path file_name)"
    by (rule apply_rows_Inr)
  with assms(1) show ?thesis by (simp add: file_path_column_def)
qed

lemma str_add_error: "str_add lit c = Inl e \<Longrightarrow> e = TypeError"
  by (cases c) simp_all

lemma file_path_column_type_error:
  assumes "\<not> list_all text_or_missing file_name"
  shows "file_path_column file_name = Inl TypeError"
proof -
  from assms obtain c where c: "c \<in> set file_name" "\<not> text_or_missing c"
    by (auto simp: list_all_iff)
  from c(2) have "(if c = JNull then Inr JNull else str_add ''damg7374-a1-store/'' c) = Inl TypeError"
    by (cases c) simp_all
  then have "apply_rows (\<lambda>c. if c = JNull then Inr JNull else str_add ''damg7374-a1-store/'' c)
      file_name = Inl TypeError"
    by (rule apply_rows_Inl[OF c(1)]) (auto dest: str_add_error split: if_splits)
  moreover from c(1) have "file_name \<noteq> []" by auto
  ultimately show ?thesis by (simp add: file_path_column_def)
qed

text \<open>
  Claim C9, as stated, fails: for a row whose \<open>file_name\<close> is empty the new
  \<open>file_path\<close> is missing, not the prefix followed by the empty name; here in a table
  with one such row and one row of \<open>report.pdf\<close>.
\<close>

theorem file_path_of_empty_file_name:
  "file_path_column [JString ''report.pdf'', JNull]
     = Inr [JString ''damg7374-a1-store/report.pdf'', JNull]
   \<and> JNull \<noteq> JString (''damg7374-a1-store/'' @ [])"
  by (simp add: file_path_column_def)

text \<open>
  Claim C9, amended. For every processed file whose \<open>file_name\<close> column holds in each
  row a text or nothing, the rewritten \<open>file_path\<close> of a row with a name is the
  literal \<open>damg7374-a1-store/\<close> followed by that name, and the \<open>file_path\<close> of a row
  without a name is missing; in particular \<open>report.pdf\<close> yields
  \<open>damg7374-a1-store/report.pdf\<close>.
\<close>

theorem file_path_is_bucket_plus_file_name:
  "(file_name \<noteq> [] \<and> list_all text_or_missing file_name \<longrightarrow>
      file_path_column file_name = Inr (map bucket_path file_name))
   \<and> bucket_path (JString name) = JString (''damg7374-a1-store/'' @ name)
   \<and> bucket_path JNull = JNull
   \<and> file_path_column [JString ''report.pdf''] = Inr [JString ''damg7374-a1-store/report.pdf'']"
  using file_path_column_text_or_missing by (simp add: file_path_column_def)

theorem file_path_is_bucket_plus_file_name_witness:
  "list_all text_or_missing [JString ''report.pdf'', JNull, JString ''a b.png'']
   \<and> file_path_column [JString ''report.pdf'', JNull, JString ''a b.png'']
     = Inr [JString ''damg7374-a1-store/report.pdf'', JNull, JString ''damg7374-a1-store/a b.png'']"
  using file_path_is_bucket_plus_file_name[of "[JString ''report.pdf'', JNull, JString ''a b.png'']"]
  by simp









lemma coerce_num_tools_examples:
  "coerce_num_tools [] = Some (Inl (KeyError ''metadata_num_tools''))
   \<and> coerce_num_tools [JString '' 12 ''] = None
   \<and> coerce_num_tools [JString ''Inf''] = None
   \<and> coerce_num_tools [JString [CHR ''i'', CHR ''n'', CHR ''f'', CHR 0x00, CHR ''x'']] = None
   \<and> coerce_num_tools [JString [CHR ''7'', CHR 0x00, CHR ''x'']] = None
   \<and> coerce_num_tools [JString []] = Some (Inr [None])
   \<and> coerce_num_tools [JString ''3 tools''] = Some (Inr [None])
   \<and> coerce_num_tools [JString ''1e''] = Some (Inr [None])
   \<and> coerce_num_tools [JFloat (Decimal 100000000001 (- 11))] = None
   \<and> coerce_num_tools [JObject []] = None"
  by (simp add: coerce_eval)

end
